theory Spec2Isabelle
  imports Complex_Main
begin

section \<open>WER evaluation: a shallow embedding of \<^verbatim>\<open>wer_evaluation.py\<close>\<close>

text \<open>
  The module computes the Word Error Rate between a reference and a hypothesis
  transcription. Its functions are embedded one by one, under their own names:
  \<^verbatim>\<open>normalizar_texto\<close>, \<^verbatim>\<open>calcular_distancia_edicion\<close>, \<^verbatim>\<open>calcular_wer\<close> and
  \<^verbatim>\<open>calcular_wer_total\<close>. Python integers are \<^typ>\<open>int\<close>, list positions are
  \<^typ>\<open>nat\<close>, and the \<^verbatim>\<open>print\<close> calls of the aggregator are an explicit output log.
\<close>

subsection \<open>The alignment engine: \<^verbatim>\<open>calcular_distancia_edicion\<close>\<close>

text \<open>
  The table \<^verbatim>\<open>dp\<close> is a two-dimensional array of integers with \<open>n + 1\<close> rows and
  \<open>m + 1\<close> columns, created by \<^verbatim>\<open>np.zeros((n + 1, m + 1), dtype=int)\<close>. It is modelled as
  a list of rows. Its entries never exceed \<open>max n m\<close>, so the 64-bit width of the array's
  element type plays no role and the entries are plain integers. Every read and write of
  the source is at a position inside the array (\<open>i \<le> n\<close>, \<open>j \<le> m\<close>, and \<open>i - 1\<close>, \<open>j - 1\<close> are
  only formed under \<open>i > 0\<close>, \<open>j > 0\<close>), and every token read is at a position below the
  length of its list.
\<close>

type_synonym matriz = "int list list"

definition zeros :: "nat \<Rightarrow> nat \<Rightarrow> matriz" where
  "zeros r c = replicate r (replicate c 0)"

definition dp_get :: "matriz \<Rightarrow> nat \<Rightarrow> nat \<Rightarrow> int" where
  "dp_get dp i j = dp ! i ! j"

definition dp_set :: "matriz \<Rightarrow> nat \<Rightarrow> nat \<Rightarrow> int \<Rightarrow> matriz" where
  "dp_set dp i j v = dp[i := (dp ! i)[j := v]]"

text \<open>
  The two initialisation loops,
  \<^verbatim>\<open>for i in range(n + 1): dp[i][0] = i\<close> and \<^verbatim>\<open>for j in range(m + 1): dp[0][j] = j\<close>.
  A \<^verbatim>\<open>for\<close> loop over a range is a \<^const>\<open>fold\<close> over the list of its indices.
\<close>

definition init_col :: "nat \<Rightarrow> matriz \<Rightarrow> matriz" where
  "init_col n dp = fold (\<lambda>i d. dp_set d i 0 (int i)) [0..<n + 1] dp"

definition init_row :: "nat \<Rightarrow> matriz \<Rightarrow> matriz" where
  "init_row m dp = fold (\<lambda>j d. dp_set d 0 j (int j)) [0..<m + 1] dp"

text \<open>
  The body of the nested loop (one cell), the inner loop over \<open>j\<close> (one row) and the
  outer loop over \<open>i\<close>. Python's \<^verbatim>\<open>min(a, b, c)\<close> is the least of the three.
\<close>

definition fill_cell :: "'a list \<Rightarrow> 'a list \<Rightarrow> nat \<Rightarrow> nat \<Rightarrow> matriz \<Rightarrow> matriz" where
  "fill_cell ref_words hyp_words i j dp =
     (if ref_words ! (i - 1) = hyp_words ! (j - 1)
      then dp_set dp i j (dp_get dp (i - 1) (j - 1))
      else dp_set dp i j
             (1 + min (dp_get dp (i - 1) j)
                      (min (dp_get dp i (j - 1)) (dp_get dp (i - 1) (j - 1)))))"

definition fill_row :: "'a list \<Rightarrow> 'a list \<Rightarrow> nat \<Rightarrow> nat \<Rightarrow> matriz \<Rightarrow> matriz" where
  "fill_row ref_words hyp_words m i dp = fold (fill_cell ref_words hyp_words i) [1..<m + 1] dp"

definition fill_table :: "'a list \<Rightarrow> 'a list \<Rightarrow> matriz" where
  "fill_table ref_words hyp_words =
     (let n = length ref_words; m = length hyp_words
      in fold (fill_row ref_words hyp_words m) [1..<n + 1]
           (init_row m (init_col n (zeros (n + 1) (m + 1)))))"

text \<open>
  The backtracking loop \<^verbatim>\<open>while i > 0 or j > 0\<close>. Its state is the position \<open>(i, j)\<close> and the
  three counters; the function returns the state in which the loop is left, either because
  the loop condition fails or through the final \<^verbatim>\<open>else: break\<close>. Every iteration that does not
  break decreases \<open>i + j\<close>, which is the termination measure.
\<close>

function backtrack ::
  "'a list \<Rightarrow> 'a list \<Rightarrow> matriz \<Rightarrow> nat \<Rightarrow> nat \<Rightarrow> int \<Rightarrow> int \<Rightarrow> int
     \<Rightarrow> nat \<times> nat \<times> int \<times> int \<times> int" where
  "backtrack ref_words hyp_words dp i j sustituciones eliminaciones inserciones =
     (if i > 0 \<or> j > 0 then
        if i > 0 \<and> j > 0 \<and> ref_words ! (i - 1) = hyp_words ! (j - 1) then
          backtrack ref_words hyp_words dp (i - 1) (j - 1) sustituciones eliminaciones inserciones
        else if i > 0 \<and> j > 0 \<and> dp_get dp i j = dp_get dp (i - 1) (j - 1) + 1 then
          backtrack ref_words hyp_words dp (i - 1) (j - 1) (sustituciones + 1) eliminaciones inserciones
        else if i > 0 \<and> dp_get dp i j = dp_get dp (i - 1) j + 1 then
          backtrack ref_words hyp_words dp (i - 1) j sustituciones (eliminaciones + 1) inserciones
        else if j > 0 \<and> dp_get dp i j = dp_get dp i (j - 1) + 1 then
          backtrack ref_words hyp_words dp i (j - 1) sustituciones eliminaciones (inserciones + 1)
        else (i, j, sustituciones, eliminaciones, inserciones)
      else (i, j, sustituciones, eliminaciones, inserciones))"
  by pat_completeness auto
termination
  by (relation "measure (\<lambda>(r, h, dp, i, j, s, d, ins). i + j)") auto

declare backtrack.simps [simp del]

definition calcular_distancia_edicion ::
  "'a list \<Rightarrow> 'a list \<Rightarrow> int \<times> int \<times> int \<times> matriz" where
  "calcular_distancia_edicion ref_words hyp_words =
     (let n = length ref_words; m = length hyp_words;
          dp = fill_table ref_words hyp_words;
          (i, j, sustituciones, eliminaciones, inserciones) =
             backtrack ref_words hyp_words dp n m 0 0 0
      in (sustituciones, eliminaciones, inserciones, dp))"

subsection \<open>Strings and the text normaliser: \<^verbatim>\<open>normalizar_texto\<close>\<close>

text \<open>
  A Python string is a sequence of Unicode code points. The normaliser and the tokeniser
  call five operations of the Python library whose results are fixed by the Unicode
  character database, which is not part of the program: \<^verbatim>\<open>str.lower\<close>, the canonical
  decomposition \<^verbatim>\<open>unicodedata.normalize('NFD', _)\<close>, the test
  \<^verbatim>\<open>unicodedata.category(c) == 'Mn'\<close>, the regular-expression class \<^verbatim>\<open>\w\<close>, and the
  whitespace test that the class \<^verbatim>\<open>\s\<close>, \<^verbatim>\<open>str.strip()\<close> and \<^verbatim>\<open>str.split()\<close> share. They are
  parameters of the model, collected in a record.
\<close>

type_synonym codepoint = nat
type_synonym str = "codepoint list"

record unicode_db =
  str_lower :: "str \<Rightarrow> str"
  normalize_NFD :: "str \<Rightarrow> str"
  category_Mn :: "codepoint \<Rightarrow> bool"
  re_word :: "codepoint \<Rightarrow> bool"
  isspace :: "codepoint \<Rightarrow> bool"

text \<open>The space character \<^verbatim>\<open>' '\<close> and the newline \<^verbatim>\<open>'\n'\<close>.\<close>

definition chr_space :: codepoint where
  "chr_space = 32"

definition chr_newline :: codepoint where
  "chr_newline = 10"

text \<open>\<^verbatim>\<open>re.sub(r'[^\w\s]', ' ', texto)\<close>: every character outside both classes becomes a space.\<close>

definition re_sub_nonword :: "unicode_db \<Rightarrow> str \<Rightarrow> str" where
  "re_sub_nonword U texto =
     map (\<lambda>c. if re_word U c \<or> isspace U c then c else chr_space) texto"

text \<open>\<^verbatim>\<open>re.sub(r'\s+', ' ', texto)\<close>: every maximal run of whitespace becomes one space.\<close>

function re_sub_spaces :: "unicode_db \<Rightarrow> str \<Rightarrow> str" where
  "re_sub_spaces U [] = []"
| "re_sub_spaces U (c # cs) =
     (if isspace U c then chr_space # re_sub_spaces U (dropWhile (isspace U) cs)
      else c # re_sub_spaces U cs)"
  by pat_completeness auto
termination
  by (relation "measure (\<lambda>(U, cs). length cs)")
     (auto simp: le_imp_less_Suc length_dropWhile_le)

text \<open>\<^verbatim>\<open>texto.strip()\<close>: leading and trailing whitespace is removed.\<close>

definition str_strip :: "unicode_db \<Rightarrow> str \<Rightarrow> str" where
  "str_strip U texto = rev (dropWhile (isspace U) (rev (dropWhile (isspace U) texto)))"

definition normalizar_texto :: "unicode_db \<Rightarrow> str \<Rightarrow> str" where
  "normalizar_texto U texto =
     (let texto = str_lower U texto;
          texto = normalize_NFD U texto;
          texto = filter (\<lambda>char. \<not> category_Mn U char) texto;
          texto = re_sub_nonword U texto;
          texto = re_sub_spaces U texto;
          texto = str_strip U texto
      in texto)"

text \<open>
  \<^verbatim>\<open>texto.split()\<close> without arguments: the maximal runs of non-whitespace characters, in
  order; no empty string is produced.
\<close>

function str_split :: "unicode_db \<Rightarrow> str \<Rightarrow> str list" where
  "str_split U [] = []"
| "str_split U (c # cs) =
     (if isspace U c then str_split U cs
      else takeWhile (\<lambda>x. \<not> isspace U x) (c # cs)
             # str_split U (dropWhile (\<lambda>x. \<not> isspace U x) cs))"
  by pat_completeness auto
termination
  by (relation "measure (\<lambda>(U, cs). length cs)")
     (auto simp: le_imp_less_Suc length_dropWhile_le)

text \<open>
  The database restricted to ASCII: on text whose code points are all below 128 these
  are the results of the Python library (lower-casing shifts \<open>A\<close>..\<open>Z\<close>, such text is
  its own canonical decomposition and holds no combining mark, \<^verbatim>\<open>\w\<close> is
  \<open>[a-zA-Z0-9_]\<close>, and the whitespace characters are the code points 9 to 13 and 28 to 32).
  It is used to run the program on concrete ASCII inputs; \<open>cps\<close> turns a string literal
  into its code points.
\<close>

definition ascii_lower :: "codepoint \<Rightarrow> codepoint" where
  "ascii_lower c = (if 65 \<le> c \<and> c \<le> 90 then c + 32 else c)"

definition ascii_word :: "codepoint \<Rightarrow> bool" where
  "ascii_word c \<longleftrightarrow>
     (48 \<le> c \<and> c \<le> 57) \<or> (65 \<le> c \<and> c \<le> 90) \<or> c = 95 \<or> (97 \<le> c \<and> c \<le> 122)"

definition ascii_space :: "codepoint \<Rightarrow> bool" where
  "ascii_space c \<longleftrightarrow> (9 \<le> c \<and> c \<le> 13) \<or> (28 \<le> c \<and> c \<le> 32)"

definition ascii_db :: unicode_db where
  "ascii_db = \<lparr> str_lower = map ascii_lower, normalize_NFD = (\<lambda>texto. texto),
                category_Mn = (\<lambda>c. False), re_word = ascii_word, isspace = ascii_space \<rparr>"

definition cps :: "string \<Rightarrow> str" where
  "cps s = map of_char s"

subsection \<open>The scorer: \<^verbatim>\<open>calcular_wer\<close>\<close>

text \<open>
  Python floats are modelled by their exact values together with the two infinities and
  the not-a-number value; rounding to 64-bit precision is not modelled. The operations are
  those the program applies: the true division \<^verbatim>\<open>a / b\<close> of two integers, which raises
  \<^verbatim>\<open>ZeroDivisionError\<close> on a zero divisor, the subtraction \<^verbatim>\<open>1 - x\<close>, the built-in
  \<^verbatim>\<open>max(0, x)\<close>, which returns \<open>x\<close> when \<open>x > 0\<close> holds and its first argument otherwise, and
  the sum and the mean of a list.
\<close>

datatype pyfloat = Finite real | PosInf | NegInf | NaN

datatype py_error = ZeroDivisionError

definition py_truediv :: "int \<Rightarrow> int \<Rightarrow> py_error + pyfloat" where
  "py_truediv a b =
     (if b = 0 then Inl ZeroDivisionError else Inr (Finite (real_of_int a / real_of_int b)))"

fun py_one_minus :: "pyfloat \<Rightarrow> pyfloat" where
  "py_one_minus (Finite x) = Finite (1 - x)"
| "py_one_minus PosInf = NegInf"
| "py_one_minus NegInf = PosInf"
| "py_one_minus NaN = NaN"

fun py_gt_zero :: "pyfloat \<Rightarrow> bool" where
  "py_gt_zero (Finite x) \<longleftrightarrow> 0 < x"
| "py_gt_zero PosInf \<longleftrightarrow> True"
| "py_gt_zero NegInf \<longleftrightarrow> False"
| "py_gt_zero NaN \<longleftrightarrow> False"

definition py_max_zero :: "pyfloat \<Rightarrow> pyfloat" where
  "py_max_zero x = (if py_gt_zero x then x else Finite 0)"

fun py_add :: "pyfloat \<Rightarrow> pyfloat \<Rightarrow> pyfloat" where
  "py_add (Finite a) (Finite b) = Finite (a + b)"
| "py_add NaN y = NaN"
| "py_add x NaN = NaN"
| "py_add PosInf NegInf = NaN"
| "py_add NegInf PosInf = NaN"
| "py_add PosInf y = PosInf"
| "py_add x PosInf = PosInf"
| "py_add NegInf y = NegInf"
| "py_add x NegInf = NegInf"

definition np_mean :: "pyfloat list \<Rightarrow> pyfloat" where
  "np_mean xs =
     (if xs = [] then NaN
      else case foldl py_add (Finite 0) xs of
             Finite suma \<Rightarrow> Finite (suma / real (length xs))
           | v \<Rightarrow> v)"

text \<open>The dictionary returned by \<^verbatim>\<open>calcular_wer\<close>, one field for each key.\<close>

record pair_metrics =
  wer :: pyfloat
  accuracy :: pyfloat
  sustituciones :: int
  eliminaciones :: int
  inserciones :: int
  total_errores :: int
  palabras_referencia :: int
  palabras_hipotesis :: int

definition calcular_wer :: "unicode_db \<Rightarrow> str \<Rightarrow> str \<Rightarrow> py_error + pair_metrics" where
  "calcular_wer U referencia hipotesis =
     (let ref_normalizada = normalizar_texto U referencia;
          hyp_normalizada = normalizar_texto U hipotesis;
          ref_words = str_split U ref_normalizada;
          hyp_words = str_split U hyp_normalizada;
          (S, D, I, dp) = calcular_distancia_edicion ref_words hyp_words;
          N = int (length ref_words)
      in case (if N = 0 then
                 Inr (if length hyp_words > 0 then PosInf else Finite 0, Finite 0)
               else
                 case py_truediv (S + D + I) N of
                   Inl e \<Rightarrow> Inl e
                 | Inr w \<Rightarrow> Inr (w, py_max_zero (py_one_minus w)))
         of Inl e \<Rightarrow> Inl e
          | Inr (w, acc) \<Rightarrow>
              Inr \<lparr> wer = w, accuracy = acc, sustituciones = S, eliminaciones = D,
                    inserciones = I, total_errores = S + D + I, palabras_referencia = N,
                    palabras_hipotesis = int (length hyp_words) \<rparr>)"

subsection \<open>The corpus aggregator: \<^verbatim>\<open>extraer_transcripciones\<close> and \<^verbatim>\<open>calcular_wer_total\<close>\<close>

text \<open>
  The file system is a parameter: reading a file yields its decoded contents or fails,
  with \<^verbatim>\<open>FileNotFoundError\<close> or with another exception; the function catches both. What the
  functions print is returned as a list of output lines, one constructor for each
  \<^verbatim>\<open>print\<close> call of the source, carrying the values the line shows.
\<close>

datatype io_error = FileNotFoundError | OtherReadError

type_synonym filesystem = "string \<Rightarrow> io_error + str"

datatype salida =
    ErrorArchivoNoEncontrado string
  | ErrorAlLeerArchivo string
  | AdvertenciaNoCoincide
  | LongitudesManualOpenAI nat nat
  | ErrorSinTranscripciones
  | Procesando nat
  | LineaTranscripcion nat pyfloat pyfloat
  | LineaErrores int int int
  | LineaPalabras int int

text \<open>\<^verbatim>\<open>contenido.split('\n\n')\<close>: the pieces between the occurrences of two newlines, found
  from left to right.\<close>

fun split_blank :: "str \<Rightarrow> str list" where
  "split_blank [] = [[]]"
| "split_blank [c] = [[c]]"
| "split_blank (c # d # cs) =
     (if c = chr_newline \<and> d = chr_newline then [] # split_blank cs
      else case split_blank (d # cs) of
             p # ps \<Rightarrow> (c # p) # ps
           | [] \<Rightarrow> [[c]])"

definition extraer_transcripciones ::
  "filesystem \<Rightarrow> unicode_db \<Rightarrow> string \<Rightarrow> salida list \<times> str list" where
  "extraer_transcripciones fs U archivo =
     (case fs archivo of
        Inr contenido \<Rightarrow>
          ([], map (str_strip U) (filter (\<lambda>t. str_strip U t \<noteq> []) (split_blank contenido)))
      | Inl FileNotFoundError \<Rightarrow> ([ErrorArchivoNoEncontrado archivo], [])
      | Inl OtherReadError \<Rightarrow> ([ErrorAlLeerArchivo archivo], []))"

text \<open>The dictionary returned by \<^verbatim>\<open>calcular_wer_total\<close>; its key \<^verbatim>\<open>total_errores\<close> is the field
  \<open>total_errores_corpus\<close>, the name being taken by the record above.\<close>

record corpus_summary =
  wer_promedio :: pyfloat
  wer_total :: pyfloat
  accuracy_promedio :: pyfloat
  accuracy_total :: pyfloat
  total_sustituciones :: int
  total_eliminaciones :: int
  total_inserciones :: int
  total_errores_corpus :: int
  total_palabras_referencia :: int
  num_transcripciones :: nat
  resultados_individuales :: "pair_metrics list"

text \<open>
  The loop \<^verbatim>\<open>for i, (manual, openai) in enumerate(zip(...), 1)\<close>, with the list of results,
  the four running sums and the output as its state. An exception of \<^verbatim>\<open>calcular_wer\<close> would
  leave the loop and the function.
\<close>

fun procesar ::
  "unicode_db \<Rightarrow> (str \<times> str) list \<Rightarrow> nat
     \<Rightarrow> pair_metrics list \<times> int \<times> int \<times> int \<times> int \<times> salida list
     \<Rightarrow> py_error + (pair_metrics list \<times> int \<times> int \<times> int \<times> int \<times> salida list)" where
  "procesar U [] i estado = Inr estado"
| "procesar U ((manual, openai) # resto) i
     (resultados, S_total, D_total, I_total, N_total, out) =
     (case calcular_wer U manual openai of
        Inl e \<Rightarrow> Inl e
      | Inr resultado \<Rightarrow>
          procesar U resto (i + 1)
            (resultados @ [resultado],
             S_total + sustituciones resultado,
             D_total + eliminaciones resultado,
             I_total + inserciones resultado,
             N_total + palabras_referencia resultado,
             out @ [LineaTranscripcion i (wer resultado) (accuracy resultado),
                    LineaErrores (sustituciones resultado) (eliminaciones resultado)
                      (inserciones resultado),
                    LineaPalabras (palabras_referencia resultado)
                      (palabras_hipotesis resultado)]))"

text \<open>The body of \<^verbatim>\<open>calcular_wer_total\<close> from the comparison of the two lengths on, as a
  function of the two lists read and of the output so far.\<close>

definition agregar ::
  "unicode_db \<Rightarrow> salida list \<Rightarrow> str list \<Rightarrow> str list
     \<Rightarrow> py_error + (salida list \<times> corpus_summary option)" where
  "agregar U out0 manual0 openai0 =
     (let (out1, transcripciones_manual, transcripciones_openai) =
            (if length manual0 \<noteq> length openai0 then
               let min_len = min (length manual0) (length openai0)
               in (out0 @ [AdvertenciaNoCoincide,
                           LongitudesManualOpenAI (length manual0) (length openai0)],
                   take min_len manual0, take min_len openai0)
             else (out0, manual0, openai0))
      in if transcripciones_manual = [] then Inr (out1 @ [ErrorSinTranscripciones], None)
         else
           case procesar U (zip transcripciones_manual transcripciones_openai) 1
                  ([], 0, 0, 0, 0, out1 @ [Procesando (length transcripciones_manual)]) of
             Inl e \<Rightarrow> Inl e
           | Inr (resultados, S_total, D_total, I_total, N_total, out2) \<Rightarrow>
               (case (if N_total > 0 then py_truediv (S_total + D_total + I_total) N_total
                      else Inr PosInf) of
                  Inl e \<Rightarrow> Inl e
                | Inr wer_tot \<Rightarrow>
                    Inr (out2,
                         Some \<lparr> wer_promedio = np_mean (map wer resultados),
                                wer_total = wer_tot,
                                accuracy_promedio = np_mean (map accuracy resultados),
                                accuracy_total = py_max_zero (py_one_minus wer_tot),
                                total_sustituciones = S_total,
                                total_eliminaciones = D_total,
                                total_inserciones = I_total,
                                total_errores_corpus = S_total + D_total + I_total,
                                total_palabras_referencia = N_total,
                                num_transcripciones = length resultados,
                                resultados_individuales = resultados \<rparr>)))"

definition calcular_wer_total ::
  "filesystem \<Rightarrow> unicode_db \<Rightarrow> string \<Rightarrow> string
     \<Rightarrow> py_error + (salida list \<times> corpus_summary option)" where
  "calcular_wer_total fs U archivo_manual archivo_openai =
     (let (out_manual, transcripciones_manual) = extraer_transcripciones fs U archivo_manual;
          (out_openai, transcripciones_openai) = extraer_transcripciones fs U archivo_openai
      in agregar U (out_manual @ out_openai) transcripciones_manual transcripciones_openai)"

subsection \<open>Example inputs\<close>

text \<open>
  Two small file systems on which the aggregator is run below: one whose two files hold a
  single transcription made of punctuation only, and one whose reference file holds two
  transcriptions and whose hypothesis file holds one. Every other file is missing.
\<close>

definition ejemplo_fs_puntuacion :: filesystem where
  "ejemplo_fs_puntuacion archivo =
     (if archivo = ''manual.txt'' then Inr (cps ''...'')
      else if archivo = ''openai.txt'' then Inr (cps ''!!!'')
      else Inl FileNotFoundError)"

definition ejemplo_fs_desigual :: filesystem where
  "ejemplo_fs_desigual archivo =
     (if archivo = ''manual.txt'' then Inr (cps ''hola mundo'' @ [10, 10] @ cps ''adios'')
      else if archivo = ''openai.txt'' then Inr (cps ''hola'')
      else Inl FileNotFoundError)"

subsection \<open>Reference notions the alignment is compared with\<close>

text \<open>
  The classical unit-cost Levenshtein distance, by its textbook recursion on the two
  sequences. It is independent of the table of the program.
\<close>

fun levenshtein :: "'a list \<Rightarrow> 'a list \<Rightarrow> nat" where
  "levenshtein [] ys = length ys"
| "levenshtein xs [] = length xs"
| "levenshtein (x # xs) (y # ys) =
     (if x = y then levenshtein xs ys
      else 1 + min (levenshtein xs (y # ys)) (min (levenshtein (x # xs) ys) (levenshtein xs ys)))"

text \<open>
  \<open>edits xs ys k\<close>: the sequence \<open>xs\<close> is turned into \<open>ys\<close> by a script of single-token
  operations (keep a token, substitute one, delete one, insert one) of which \<open>k\<close> are not
  keeps. The distance above is the least such \<open>k\<close> (lemmas \<open>edits_levenshtein\<close> and
  \<open>levenshtein_le\<close> below), so the recursion does define the edit distance.
\<close>

inductive edits :: "'a list \<Rightarrow> 'a list \<Rightarrow> nat \<Rightarrow> bool" where
  edits_Nil: "edits [] [] 0"
| edits_Keep: "edits xs ys k \<Longrightarrow> edits (x # xs) (x # ys) k"
| edits_Subst: "edits xs ys k \<Longrightarrow> edits (x # xs) (y # ys) (Suc k)"
| edits_Delete: "edits xs ys k \<Longrightarrow> edits (x # xs) ys (Suc k)"
| edits_Insert: "edits xs ys k \<Longrightarrow> edits xs (y # ys) (Suc k)"

text \<open>
  The table of the specification, given by its recurrence on the two indices:
  \<open>table[i][0] = i\<close>, \<open>table[0][j] = j\<close>, and for \<open>i, j \<ge> 1\<close> the diagonal entry when
  \<open>ref[i-1] = hyp[j-1]\<close>, else one more than the least of the three neighbours.
\<close>

fun spec_table :: "'a list \<Rightarrow> 'a list \<Rightarrow> nat \<Rightarrow> nat \<Rightarrow> int" where
  "spec_table ref_words hyp_words i 0 = int i"
| "spec_table ref_words hyp_words 0 j = int j"
| "spec_table ref_words hyp_words (Suc i) (Suc j) =
     (if ref_words ! i = hyp_words ! j then spec_table ref_words hyp_words i j
      else 1 + min (spec_table ref_words hyp_words i (Suc j))
                   (min (spec_table ref_words hyp_words (Suc i) j)
                        (spec_table ref_words hyp_words i j)))"

text \<open>
  The backtracking of the specification, as the path of moves from \<open>(i, j)\<close> to \<open>(0, 0)\<close>:
  at each cell a match when the two tokens are equal; otherwise, in this order, a
  substitution if \<open>table[i][j] = table[i-1][j-1] + 1\<close>, else a deletion if
  \<open>table[i][j] = table[i-1][j] + 1\<close>, else an insertion if \<open>table[i][j] = table[i][j-1] + 1\<close>.
  On the border only the moves that stay inside the table exist. The specification names
  no move for a cell where none of the tests succeeds: the path is then \<open>None\<close>.
\<close>

datatype move = Match | Substitution | Deletion | Insertion

fun spec_backtrack :: "'a list \<Rightarrow> 'a list \<Rightarrow> nat \<Rightarrow> nat \<Rightarrow> move list option" where
  "spec_backtrack r h 0 0 = Some []"
| "spec_backtrack r h (Suc i) 0 =
     (if spec_table r h (Suc i) 0 = spec_table r h i 0 + 1
      then map_option ((#) Deletion) (spec_backtrack r h i 0) else None)"
| "spec_backtrack r h 0 (Suc j) =
     (if spec_table r h 0 (Suc j) = spec_table r h 0 j + 1
      then map_option ((#) Insertion) (spec_backtrack r h 0 j) else None)"
| "spec_backtrack r h (Suc i) (Suc j) =
     (if r ! i = h ! j then map_option ((#) Match) (spec_backtrack r h i j)
      else if spec_table r h (Suc i) (Suc j) = spec_table r h i j + 1
        then map_option ((#) Substitution) (spec_backtrack r h i j)
      else if spec_table r h (Suc i) (Suc j) = spec_table r h i (Suc j) + 1
        then map_option ((#) Deletion) (spec_backtrack r h i (Suc j))
      else if spec_table r h (Suc i) (Suc j) = spec_table r h (Suc i) j + 1
        then map_option ((#) Insertion) (spec_backtrack r h (Suc i) j)
      else None)"

definition spec_counts :: "move list \<Rightarrow> int \<times> int \<times> int" where
  "spec_counts path =
     (int (count_list path Substitution), int (count_list path Deletion),
      int (count_list path Insertion))"

definition spec_align :: "'a list \<Rightarrow> 'a list \<Rightarrow> (int \<times> int \<times> int) option" where
  "spec_align r h = map_option spec_counts (spec_backtrack r h (length r) (length h))"

subsection \<open>Invariants of the table loops\<close>

text \<open>
  \<open>wf_dp\<close>: the table has its shape. \<open>known i j a b\<close>: cell \<open>(a, b)\<close> has received its final
  value when the nested loop is about to fill cell \<open>(i, j)\<close>, that is, it lies on the border
  or before \<open>(i, j)\<close> in row-major order. \<open>filled\<close> is the loop invariant: every known cell
  holds the value of the recurrence. \<open>table_agrees\<close> is the invariant at loop exit.
\<close>

definition wf_dp :: "nat \<Rightarrow> nat \<Rightarrow> matriz \<Rightarrow> bool" where
  "wf_dp n m dp \<longleftrightarrow> length dp = n + 1 \<and> (\<forall>i < length dp. length (dp ! i) = m + 1)"

definition known :: "nat \<Rightarrow> nat \<Rightarrow> nat \<Rightarrow> nat \<Rightarrow> bool" where
  "known i j a b \<longleftrightarrow> a = 0 \<or> b = 0 \<or> a < i \<or> (a = i \<and> b < j)"

definition filled :: "'a list \<Rightarrow> 'a list \<Rightarrow> nat \<Rightarrow> nat \<Rightarrow> matriz \<Rightarrow> bool" where
  "filled r h i j dp \<longleftrightarrow>
     wf_dp (length r) (length h) dp \<and>
     (\<forall>a \<le> length r. \<forall>b \<le> length h. known i j a b \<longrightarrow> dp_get dp a b = spec_table r h a b)"

definition table_agrees :: "'a list \<Rightarrow> 'a list \<Rightarrow> matriz \<Rightarrow> bool" where
  "table_agrees r h dp \<longleftrightarrow>
     (\<forall>a \<le> length r. \<forall>b \<le> length h. dp_get dp a b = spec_table r h a b)"

subsection \<open>What the normaliser needs of the character database\<close>

text \<open>
  Whether \<^verbatim>\<open>normalizar_texto\<close> is idempotent depends on the character database. The
  facts used are closure properties of the library operations, stated on whole strings
  because \<^verbatim>\<open>str.lower\<close> and the canonical decomposition are not character-wise maps.
  A character is \<open>lower_fixed\<close> when lower-casing it alone returns it, and \<open>nfd_fixed\<close>
  when it is its own canonical decomposition. Then \<open>unicode_db_ok\<close> says:
  \<^item> lower-casing produces only lower-fixed characters, and leaves a string of lower-fixed
    characters as it is;
  \<^item> the canonical decomposition of a string of lower-fixed characters holds only
    lower-fixed characters;
  \<^item> a canonical decomposition holds only characters that are their own decomposition,
    and it leaves a string of such characters as it is when they are all word characters
    or spaces (these have combining class zero, so nothing is reordered);
  \<^item> the space is a whitespace character, is lower-fixed, is its own decomposition and is
    not a combining mark.
\<close>

definition lower_fixed :: "unicode_db \<Rightarrow> codepoint \<Rightarrow> bool" where
  "lower_fixed U c \<longleftrightarrow> str_lower U [c] = [c]"

definition nfd_fixed :: "unicode_db \<Rightarrow> codepoint \<Rightarrow> bool" where
  "nfd_fixed U c \<longleftrightarrow> normalize_NFD U [c] = [c]"

definition unicode_db_ok :: "unicode_db \<Rightarrow> bool" where
  "unicode_db_ok U \<longleftrightarrow>
     (\<forall>x. \<forall>c \<in> set (str_lower U x). lower_fixed U c) \<and>
     (\<forall>z. (\<forall>c \<in> set z. lower_fixed U c) \<longrightarrow> str_lower U z = z) \<and>
     (\<forall>z. (\<forall>c \<in> set z. lower_fixed U c) \<longrightarrow>
          (\<forall>d \<in> set (normalize_NFD U z). lower_fixed U d)) \<and>
     (\<forall>z. \<forall>d \<in> set (normalize_NFD U z). nfd_fixed U d) \<and>
     (\<forall>z. (\<forall>c \<in> set z. nfd_fixed U c \<and> (re_word U c \<or> c = chr_space)) \<longrightarrow>
          normalize_NFD U z = z) \<and>
     isspace U chr_space \<and> lower_fixed U chr_space \<and> nfd_fixed U chr_space \<and>
     \<not> category_Mn U chr_space"

text \<open>
  \<open>collapsed\<close>: every whitespace character of the string is a space that is not followed by
  another whitespace character; the shape of the results of \<^verbatim>\<open>re.sub(r'\s+', ' ', _)\<close>.
  \<open>settled\<close>: what holds of every character of a normalised string.
\<close>

fun collapsed :: "unicode_db \<Rightarrow> str \<Rightarrow> bool" where
  "collapsed U [] \<longleftrightarrow> True"
| "collapsed U (c # cs) \<longleftrightarrow>
     (isspace U c \<longrightarrow> c = chr_space \<and> (case cs of [] \<Rightarrow> True | d # ds \<Rightarrow> \<not> isspace U d)) \<and>
     collapsed U cs"

definition settled :: "unicode_db \<Rightarrow> codepoint \<Rightarrow> bool" where
  "settled U c \<longleftrightarrow>
     lower_fixed U c \<and> nfd_fixed U c \<and> \<not> category_Mn U c \<and>
     (c = chr_space \<or> (re_word U c \<and> \<not> isspace U c))"

text \<open>The three lines printed for the pair number \<open>i\<close> in the loop of the aggregator.\<close>

definition lineas_par :: "nat \<Rightarrow> pair_metrics \<Rightarrow> salida list" where
  "lineas_par i resultado =
     [LineaTranscripcion i (wer resultado) (accuracy resultado),
      LineaErrores (sustituciones resultado) (eliminaciones resultado) (inserciones resultado),
      LineaPalabras (palabras_referencia resultado) (palabras_hipotesis resultado)]"

section \<open>Properties of the alignment engine\<close>

subsection \<open>The Levenshtein distance is the least cost of an edit script\<close>

lemma levenshtein_Nil2: "levenshtein xs [] = length xs"
  by (cases xs) simp_all

lemma edits_Nil_left: "edits [] ys (length ys)"
  by (induction ys) (auto intro: edits.intros)

lemma edits_Nil_right: "edits xs [] (length xs)"
  by (induction xs) (auto intro: edits.intros)

lemma edits_levenshtein: "edits xs ys (levenshtein xs ys)"
proof (induction xs ys rule: levenshtein.induct)
  case (1 ys)
  then show ?case by (simp add: edits_Nil_left)
next
  case (2 x xs)
  then show ?case using edits_Nil_right [of "x # xs"] by simp
next
  case (3 x xs y ys)
  show ?case
  proof (cases "x = y")
    case True
    with 3 show ?thesis by (auto intro: edits.intros)
  next
    case False
    with 3 show ?thesis
      by (auto simp: min_def intro: edits.intros)
  qed
qed

lemma levenshtein_step:
  "levenshtein (x # xs) ys \<le> Suc (levenshtein xs ys) \<and>
   levenshtein xs (y # ys) \<le> Suc (levenshtein xs ys) \<and>
   levenshtein xs ys \<le> Suc (levenshtein (x # xs) ys) \<and>
   levenshtein xs ys \<le> Suc (levenshtein xs (y # ys))"
proof (induction "length xs + length ys" arbitrary: xs ys x y rule: less_induct)
  case less
  note IH = less
  have A: "levenshtein (x # xs) ys \<le> Suc (levenshtein xs ys)"
  proof (cases ys)
    case Nil
    then show ?thesis by (simp add: levenshtein_Nil2)
  next
    case (Cons b bs)
    then show ?thesis using IH [of xs bs x b] by (auto simp: min_def)
  qed
  have B: "levenshtein xs (y # ys) \<le> Suc (levenshtein xs ys)"
  proof (cases xs)
    case Nil
    then show ?thesis by simp
  next
    case (Cons a as)
    then show ?thesis using IH [of as ys a y] by (auto simp: min_def)
  qed
  have C: "levenshtein xs ys \<le> Suc (levenshtein (x # xs) ys)"
  proof (cases ys)
    case Nil
    then show ?thesis by (simp add: levenshtein_Nil2)
  next
    case (Cons b bs)
    then show ?thesis using IH [of xs bs x b] by (auto simp: min_def)
  qed
  have D: "levenshtein xs ys \<le> Suc (levenshtein xs (y # ys))"
  proof (cases xs)
    case Nil
    then show ?thesis by simp
  next
    case (Cons a as)
    then show ?thesis using IH [of as ys a y] by (auto simp: min_def)
  qed
  from A B C D show ?case by blast
qed

lemma levenshtein_Cons_left_le: "levenshtein (x # xs) ys \<le> Suc (levenshtein xs ys)"
  using levenshtein_step [of x xs ys x] by simp

lemma levenshtein_Cons_right_le: "levenshtein xs (y # ys) \<le> Suc (levenshtein xs ys)"
  using levenshtein_step [of y xs ys y] by simp

lemma levenshtein_le: "edits xs ys k \<Longrightarrow> levenshtein xs ys \<le> k"
proof (induction rule: edits.induct)
  case edits_Nil
  show ?case by simp
next
  case (edits_Keep xs ys k x)
  then show ?case by simp
next
  case (edits_Subst xs ys k x y)
  then show ?case by (auto simp: min_def)
next
  case (edits_Delete xs ys k x)
  then show ?case using levenshtein_Cons_left_le [of x xs ys] by linarith
next
  case (edits_Insert xs ys k y)
  then show ?case using levenshtein_Cons_right_le [of xs y ys] by linarith
qed

lemma edits_snoc_Keep: "edits xs ys k \<Longrightarrow> edits (xs @ [x]) (ys @ [x]) k"
  by (induction rule: edits.induct) (auto intro: edits.intros)

lemma edits_snoc_Subst: "edits xs ys k \<Longrightarrow> edits (xs @ [x]) (ys @ [y]) (Suc k)"
  by (induction rule: edits.induct) (auto intro: edits.intros)

lemma edits_snoc_Delete: "edits xs ys k \<Longrightarrow> edits (xs @ [x]) ys (Suc k)"
  by (induction rule: edits.induct) (auto intro: edits.intros)

lemma edits_snoc_Insert: "edits xs ys k \<Longrightarrow> edits xs (ys @ [y]) (Suc k)"
  by (induction rule: edits.induct) (auto intro: edits.intros)

lemma edits_rev: "edits xs ys k \<Longrightarrow> edits (rev xs) (rev ys) k"
  by (induction rule: edits.induct)
     (auto intro: edits_Nil edits_snoc_Keep edits_snoc_Subst edits_snoc_Delete edits_snoc_Insert)

lemma levenshtein_rev: "levenshtein (rev xs) (rev ys) = levenshtein xs ys"
proof (rule antisym)
  show "levenshtein (rev xs) (rev ys) \<le> levenshtein xs ys"
    by (rule levenshtein_le [OF edits_rev [OF edits_levenshtein]])
  have "edits (rev (rev xs)) (rev (rev ys)) (levenshtein (rev xs) (rev ys))"
    by (rule edits_rev [OF edits_levenshtein])
  then show "levenshtein xs ys \<le> levenshtein (rev xs) (rev ys)"
    using levenshtein_le by fastforce
qed

lemma levenshtein_snoc:
  "levenshtein (xs @ [x]) (ys @ [y]) =
     (if x = y then levenshtein xs ys
      else 1 + min (levenshtein xs (ys @ [y])) (min (levenshtein (xs @ [x]) ys) (levenshtein xs ys)))"
proof -
  have "levenshtein (xs @ [x]) (ys @ [y]) = levenshtein (x # rev xs) (y # rev ys)"
    using levenshtein_rev [of "xs @ [x]" "ys @ [y]"] by simp
  moreover have "levenshtein (rev xs) (y # rev ys) = levenshtein xs (ys @ [y])"
    using levenshtein_rev [of xs "ys @ [y]"] by simp
  moreover have "levenshtein (x # rev xs) (rev ys) = levenshtein (xs @ [x]) ys"
    using levenshtein_rev [of "xs @ [x]" ys] by simp
  ultimately show ?thesis by (simp add: levenshtein_rev)
qed

subsection \<open>The filled table holds the distances of the prefixes\<close>

lemma spec_table_levenshtein:
  "i \<le> length r \<Longrightarrow> j \<le> length h \<Longrightarrow>
   spec_table r h i j = int (levenshtein (take i r) (take j h))"
proof (induction r h i j rule: spec_table.induct)
  case (1 r h i)
  then show ?case by (simp add: levenshtein_Nil2)
next
  case (2 r h j)
  then show ?case by simp
next
  case (3 r h i j)
  then have i: "i < length r" and j: "j < length h" by simp_all
  have ti: "take (Suc i) r = take i r @ [r ! i]" using i by (simp add: take_Suc_conv_app_nth)
  have tj: "take (Suc j) h = take j h @ [h ! j]" using j by (simp add: take_Suc_conv_app_nth)
  show ?case
  proof (cases "r ! i = h ! j")
    case True
    with 3(1) i j show ?thesis by (simp add: ti tj levenshtein_snoc)
  next
    case False
    have a: "spec_table r h i (Suc j) = int (levenshtein (take i r) (take (Suc j) h))"
      using 3(2) [OF False] i j by simp
    have b: "spec_table r h (Suc i) j = int (levenshtein (take (Suc i) r) (take j h))"
      using 3(3) [OF False] i j by simp
    have c: "spec_table r h i j = int (levenshtein (take i r) (take j h))"
      using 3(4) [OF False] i j by simp
    have "levenshtein (take (Suc i) r) (take (Suc j) h) =
       1 + min (levenshtein (take i r) (take (Suc j) h))
             (min (levenshtein (take (Suc i) r) (take j h)) (levenshtein (take i r) (take j h)))"
      using False by (simp add: ti tj levenshtein_snoc)
    then show ?thesis using False a b c by (simp add: min_def)
  qed
qed

lemma fold_upt_invariant:
  assumes "a \<le> b" and "P a s"
    and "\<And>k t. a \<le> k \<Longrightarrow> k < b \<Longrightarrow> P k t \<Longrightarrow> P (Suc k) (f k t)"
  shows "P b (fold f [a..<b] s)"
  using assms
proof (induction b)
  case 0
  then show ?case by simp
next
  case (Suc b)
  show ?case
  proof (cases "a = Suc b")
    case True
    with Suc show ?thesis by simp
  next
    case False
    with Suc.prems have ab: "a \<le> b" by simp
    have "P b (fold f [a..<b] s)"
      using Suc.IH [OF ab Suc.prems(2)] Suc.prems(3) by simp
    then have "P (Suc b) (f b (fold f [a..<b] s))"
      using Suc.prems(3) [of b] ab by simp
    then show ?thesis using ab by simp
  qed
qed

lemma wf_dp_zeros: "wf_dp n m (zeros (n + 1) (m + 1))"
  by (simp add: wf_dp_def zeros_def del: replicate.simps)

lemma wf_dp_set: "wf_dp n m dp \<Longrightarrow> wf_dp n m (dp_set dp i j v)"
  by (cases "i < length dp") (auto simp: wf_dp_def dp_set_def nth_list_update)

lemma dp_get_set:
  "wf_dp n m dp \<Longrightarrow> i \<le> n \<Longrightarrow> j \<le> m \<Longrightarrow> a \<le> n \<Longrightarrow> b \<le> m \<Longrightarrow>
   dp_get (dp_set dp i j v) a b = (if a = i \<and> b = j then v else dp_get dp a b)"
  by (auto simp: wf_dp_def dp_set_def dp_get_def nth_list_update)

lemma init_col_ok:
  "wf_dp n m dp \<Longrightarrow>
   wf_dp n m (init_col n dp) \<and> (\<forall>a \<le> n. dp_get (init_col n dp) a 0 = int a)"
proof -
  assume wf: "wf_dp n m dp"
  let ?P = "\<lambda>k d. wf_dp n m d \<and> (\<forall>a < k. dp_get d a 0 = int a)"
  have "?P (n + 1) (fold (\<lambda>i d. dp_set d i 0 (int i)) [0..<n + 1] dp)"
  proof (rule fold_upt_invariant [where P = ?P])
    show "0 \<le> n + 1" by simp
    show "?P 0 dp" using wf by simp
  next
    fix k t assume k: "k < n + 1" and P: "?P k t"
    show "?P (Suc k) (dp_set t k 0 (int k))"
      using P k by (auto simp: wf_dp_set dp_get_set [where n = n and m = m] less_Suc_eq)
  qed
  then show ?thesis by (auto simp: init_col_def)
qed

lemma init_row_ok:
  assumes "wf_dp n m dp" and "\<forall>a \<le> n. dp_get dp a 0 = int a"
  shows "wf_dp n m (init_row m dp) \<and> (\<forall>a \<le> n. dp_get (init_row m dp) a 0 = int a)
     \<and> (\<forall>b \<le> m. dp_get (init_row m dp) 0 b = int b)"
proof -
  let ?P = "\<lambda>k d. wf_dp n m d \<and> (\<forall>a \<le> n. dp_get d a 0 = int a) \<and> (\<forall>b < k. dp_get d 0 b = int b)"
  have "?P (m + 1) (fold (\<lambda>j d. dp_set d 0 j (int j)) [0..<m + 1] dp)"
  proof (rule fold_upt_invariant [where P = ?P])
    show "0 \<le> m + 1" by simp
    show "?P 0 dp" using assms by simp
  next
    fix k t assume k: "k < m + 1" and P: "?P k t"
    show "?P (Suc k) (dp_set t 0 k (int k))"
      using P k by (auto simp: wf_dp_set dp_get_set [where n = n and m = m] less_Suc_eq)
  qed
  then show ?thesis by (auto simp: init_row_def)
qed

lemma filled_init:
  "filled r h 1 1 (init_row (length h) (init_col (length r) (zeros (length r + 1) (length h + 1))))"
proof -
  let ?n = "length r" and ?m = "length h"
  let ?d = "init_row ?m (init_col ?n (zeros (?n + 1) (?m + 1)))"
  have c: "wf_dp ?n ?m (init_col ?n (zeros (?n + 1) (?m + 1)))"
      "\<forall>a \<le> ?n. dp_get (init_col ?n (zeros (?n + 1) (?m + 1))) a 0 = int a"
    using init_col_ok [OF wf_dp_zeros, of ?n ?m] by simp_all
  have d: "wf_dp ?n ?m ?d" "\<forall>a \<le> ?n. dp_get ?d a 0 = int a" "\<forall>b \<le> ?m. dp_get ?d 0 b = int b"
    using init_row_ok [OF c] by simp_all
  have "dp_get ?d a b = spec_table r h a b" if "a \<le> ?n" "b \<le> ?m" "known 1 1 a b" for a b
  proof -
    from that(3) have "a = 0 \<or> b = 0" by (auto simp: known_def)
    then show ?thesis using d that by (cases b) auto
  qed
  then show ?thesis using d(1) by (simp add: filled_def)
qed

lemma filled_cell:
  assumes "filled r h i j dp" and "1 \<le> i" and "i \<le> length r" and "1 \<le> j" and "j \<le> length h"
  shows "filled r h i (Suc j) (fill_cell r h i j dp)"
proof -
  obtain i' j' where ij: "i = Suc i'" "j = Suc j'"
    using assms(2,4) by (metis One_nat_def Suc_le_D)
  have wf: "wf_dp (length r) (length h) dp" using assms(1) by (simp add: filled_def)
  have rd: "\<And>a b. a \<le> length r \<Longrightarrow> b \<le> length h \<Longrightarrow> known i j a b \<Longrightarrow> dp_get dp a b = spec_table r h a b"
    using assms(1) by (simp add: filled_def)
  have r1: "dp_get dp i' j' = spec_table r h i' j'"
    using assms ij by (intro rd) (auto simp: known_def)
  have r2: "dp_get dp i' j = spec_table r h i' j"
    using assms ij by (intro rd) (auto simp: known_def)
  have r3: "dp_get dp i j' = spec_table r h i j'"
    using assms ij by (intro rd) (auto simp: known_def)
  define v where "v = spec_table r h i j"
  have fc: "fill_cell r h i j dp = dp_set dp i j v"
    using r1 r2 r3 ij by (simp add: fill_cell_def v_def)
  have "dp_get (dp_set dp i j v) a b = spec_table r h a b"
    if "a \<le> length r" "b \<le> length h" "known i (Suc j) a b" for a b
  proof (cases "a = i \<and> b = j")
    case True
    then show ?thesis using dp_get_set [OF wf assms(3,5) that(1,2)] by (simp add: v_def)
  next
    case False
    then have "known i j a b" using that(3) by (auto simp: known_def)
    then show ?thesis using dp_get_set [OF wf assms(3,5) that(1,2)] False rd that by auto
  qed
  then show ?thesis using wf by (simp add: filled_def fc wf_dp_set)
qed

lemma filled_row:
  assumes "filled r h i 1 dp" and "1 \<le> i" and "i \<le> length r"
  shows "filled r h (Suc i) 1 (fill_row r h (length h) i dp)"
proof -
  have "filled r h i (length h + 1) (fill_row r h (length h) i dp)"
    unfolding fill_row_def
  proof (rule fold_upt_invariant [where P = "filled r h i"])
    show "1 \<le> length h + 1" by simp
    show "filled r h i 1 dp" by fact
  next
    fix k t assume "1 \<le> k" "k < length h + 1" "filled r h i k t"
    then show "filled r h i (Suc k) (fill_cell r h i k t)"
      using filled_cell [of r h i k t] assms by simp
  qed
  then have wf: "wf_dp (length r) (length h) (fill_row r h (length h) i dp)"
    and rd: "\<And>a b. a \<le> length r \<Longrightarrow> b \<le> length h \<Longrightarrow> known i (length h + 1) a b \<Longrightarrow>
               dp_get (fill_row r h (length h) i dp) a b = spec_table r h a b"
    by (simp_all add: filled_def)
  have "known i (length h + 1) a b" if "b \<le> length h" "known (Suc i) 1 a b" for a b
    using that by (auto simp: known_def)
  then show ?thesis using wf rd by (simp add: filled_def)
qed

lemma filled_table: "filled r h (length r + 1) 1 (fill_table r h)"
proof -
  have "filled r h (length r + 1) 1 (fill_table r h)"
    unfolding fill_table_def Let_def
  proof (rule fold_upt_invariant [where P = "\<lambda>k. filled r h k 1"])
    show "1 \<le> length r + 1" by simp
    show "filled r h 1 1 (init_row (length h) (init_col (length r) (zeros (length r + 1) (length h + 1))))"
      by (rule filled_init)
  next
    fix k t assume "1 \<le> k" "k < length r + 1" "filled r h k 1 t"
    then show "filled r h (Suc k) 1 (fill_row r h (length h) k t)"
      using filled_row [of r h k t] by simp
  qed
  then show ?thesis .
qed

lemma fill_table_spec:
  "i \<le> length r \<Longrightarrow> j \<le> length h \<Longrightarrow> dp_get (fill_table r h) i j = spec_table r h i j"
  using filled_table [of r h] by (auto simp: filled_def known_def)

lemma fill_table_wf: "wf_dp (length r) (length h) (fill_table r h)"
  using filled_table [of r h] by (simp add: filled_def)

subsection \<open>The backtracking loop\<close>

lemma table_agrees_fill: "table_agrees r h (fill_table r h)"
  by (simp add: table_agrees_def fill_table_spec)

lemma spec_table_choice:
  "r ! i \<noteq> h ! j \<Longrightarrow>
   spec_table r h (Suc i) (Suc j) = spec_table r h i j + 1 \<or>
   spec_table r h (Suc i) (Suc j) = spec_table r h i (Suc j) + 1 \<or>
   spec_table r h (Suc i) (Suc j) = spec_table r h (Suc i) j + 1"
  by (simp add: min_def)

lemma spec_table_col: "spec_table r h i 0 = int i"
  by simp

lemma spec_table_row: "spec_table r h 0 j = int j"
  by (cases j) simp_all

lemma backtrack_inv:
  assumes "table_agrees r h dp" and "i \<le> length r" and "j \<le> length h"
  shows "\<exists>s' d' k'. backtrack r h dp i j s d k = (0, 0, s', d', k') \<and>
           s \<le> s' \<and> d \<le> d' \<and> k \<le> k' \<and>
           s' + d' + k' = s + d + k + spec_table r h i j \<and>
           d' - k' = d - k + int i - int j"
  using assms
proof (induction r h dp i j s d k rule: backtrack.induct)
  case (1 r h dp i j s d k)
  have T: "\<And>a b. a \<le> length r \<Longrightarrow> b \<le> length h \<Longrightarrow> dp_get dp a b = spec_table r h a b"
    using "1.prems"(1) by (simp add: table_agrees_def)
  note ag = "1.prems"(1)
  show ?case
  proof (cases i)
    case i0: 0
    show ?thesis
    proof (cases j)
      case 0
      with i0 show ?thesis by (simp add: backtrack.simps [of r h dp 0 0])
    next
      case (Suc j')
      have eq: "dp_get dp 0 (Suc j') = dp_get dp 0 j' + 1"
        using T [of 0 "Suc j'"] T [of 0 j'] "1.prems" Suc by (simp add: spec_table_row)
      have "\<exists>s' d' k'. backtrack r h dp 0 j' s d (k + 1) = (0, 0, s', d', k') \<and>
           s \<le> s' \<and> d \<le> d' \<and> k + 1 \<le> k' \<and>
           s' + d' + k' = s + d + (k + 1) + spec_table r h 0 j' \<and>
           d' - k' = d - (k + 1) + int 0 - int j'"
        using "1.IH"(4) [OF _ _ _ _ _ ag] i0 Suc eq "1.prems" by simp
      then show ?thesis using i0 Suc eq
        by (auto simp: backtrack.simps [of r h dp 0 "Suc j'"] spec_table_row)
    qed
  next
    case i: (Suc i')
    show ?thesis
    proof (cases j)
      case 0
      have eq: "dp_get dp (Suc i') 0 = dp_get dp i' 0 + 1"
        using T [of "Suc i'" 0] T [of i' 0] "1.prems" i by simp
      have "\<exists>s' d' k'. backtrack r h dp i' 0 s (d + 1) k = (0, 0, s', d', k') \<and>
           s \<le> s' \<and> d + 1 \<le> d' \<and> k \<le> k' \<and>
           s' + d' + k' = s + (d + 1) + k + spec_table r h i' 0 \<and>
           d' - k' = (d + 1) - k + int i' - int 0"
        using "1.IH"(3) [OF _ _ _ _ ag] i 0 eq "1.prems" by simp
      then show ?thesis using i 0 eq
        by (auto simp: backtrack.simps [of r h dp "Suc i'" 0])
    next
      case j: (Suc j')
      have Tij: "dp_get dp (Suc i') (Suc j') = spec_table r h (Suc i') (Suc j')"
        and T11: "dp_get dp i' j' = spec_table r h i' j'"
        and T10: "dp_get dp i' (Suc j') = spec_table r h i' (Suc j')"
        and T01: "dp_get dp (Suc i') j' = spec_table r h (Suc i') j'"
        using T "1.prems" i j by simp_all
      show ?thesis
      proof (cases "r ! i' = h ! j'")
        case True
        have "\<exists>s' d' k'. backtrack r h dp i' j' s d k = (0, 0, s', d', k') \<and>
           s \<le> s' \<and> d \<le> d' \<and> k \<le> k' \<and>
           s' + d' + k' = s + d + k + spec_table r h i' j' \<and>
           d' - k' = d - k + int i' - int j'"
          using "1.IH"(1) [OF _ _ ag] i j True "1.prems" by simp
        then show ?thesis using i j True
          by (auto simp: backtrack.simps [of r h dp "Suc i'" "Suc j'"])
      next
        case False
        note bs = backtrack.simps [of r h dp "Suc i'" "Suc j'"]
        have ch: "dp_get dp (Suc i') (Suc j') = dp_get dp i' j' + 1 \<or>
                  dp_get dp (Suc i') (Suc j') = dp_get dp i' (Suc j') + 1 \<or>
                  dp_get dp (Suc i') (Suc j') = dp_get dp (Suc i') j' + 1"
          unfolding Tij T11 T10 T01 by (rule spec_table_choice [OF False])
        consider (sub) "dp_get dp (Suc i') (Suc j') = dp_get dp i' j' + 1"
          | (del) "dp_get dp (Suc i') (Suc j') \<noteq> dp_get dp i' j' + 1"
                  "dp_get dp (Suc i') (Suc j') = dp_get dp i' (Suc j') + 1"
          | (ins) "dp_get dp (Suc i') (Suc j') \<noteq> dp_get dp i' j' + 1"
                  "dp_get dp (Suc i') (Suc j') \<noteq> dp_get dp i' (Suc j') + 1"
                  "dp_get dp (Suc i') (Suc j') = dp_get dp (Suc i') j' + 1"
          using ch by blast
        then show ?thesis
        proof cases
          case sub
          have "\<exists>s' d' k'. backtrack r h dp i' j' (s + 1) d k = (0, 0, s', d', k') \<and>
             s + 1 \<le> s' \<and> d \<le> d' \<and> k \<le> k' \<and>
             s' + d' + k' = (s + 1) + d + k + spec_table r h i' j' \<and>
             d' - k' = d - k + int i' - int j'"
            using "1.IH"(2) [OF _ _ _ ag] i j False sub "1.prems" by simp
          then show ?thesis using i j False sub Tij T11
            by (auto simp: bs)
        next
          case del
          have "\<exists>s' d' k'. backtrack r h dp i' (Suc j') s (d + 1) k = (0, 0, s', d', k') \<and>
             s \<le> s' \<and> d + 1 \<le> d' \<and> k \<le> k' \<and>
             s' + d' + k' = s + (d + 1) + k + spec_table r h i' (Suc j') \<and>
             d' - k' = (d + 1) - k + int i' - int (Suc j')"
            using "1.IH"(3) [OF _ _ _ _ ag] i j False del "1.prems" by simp
          then show ?thesis using i j False del Tij T10
            by (auto simp: bs)
        next
          case ins
          have "\<exists>s' d' k'. backtrack r h dp (Suc i') j' s d (k + 1) = (0, 0, s', d', k') \<and>
             s \<le> s' \<and> d \<le> d' \<and> k + 1 \<le> k' \<and>
             s' + d' + k' = s + d + (k + 1) + spec_table r h (Suc i') j' \<and>
             d' - k' = d - (k + 1) + int (Suc i') - int j'"
            using "1.IH"(4) [OF _ _ _ _ _ ag] i j False ins "1.prems" by simp
          then show ?thesis using i j False ins Tij T01
            by (auto simp: bs)
        qed
      qed
    qed
  qed
qed

lemma backtrack_refines:
  assumes "table_agrees r h dp" and "i \<le> length r" and "j \<le> length h"
  shows "\<exists>p. spec_backtrack r h i j = Some p \<and>
           backtrack r h dp i j s d k =
             (0, 0, s + int (count_list p Substitution), d + int (count_list p Deletion),
              k + int (count_list p Insertion))"
  using assms
proof (induction r h dp i j s d k rule: backtrack.induct)
  case (1 r h dp i j s d k)
  have T: "\<And>a b. a \<le> length r \<Longrightarrow> b \<le> length h \<Longrightarrow> dp_get dp a b = spec_table r h a b"
    using "1.prems"(1) by (simp add: table_agrees_def)
  note ag = "1.prems"(1)
  show ?case
  proof (cases i)
    case i0: 0
    show ?thesis
    proof (cases j)
      case 0
      with i0 show ?thesis by (simp add: backtrack.simps [of r h dp 0 0])
    next
      case (Suc j')
      have eq: "dp_get dp 0 (Suc j') = dp_get dp 0 j' + 1"
        using T [of 0 "Suc j'"] T [of 0 j'] "1.prems" Suc by (simp add: spec_table_row)
      have "\<exists>p. spec_backtrack r h 0 j' = Some p \<and>
           backtrack r h dp 0 j' s d (k + 1) =
             (0, 0, s + int (count_list p Substitution), d + int (count_list p Deletion),
              k + 1 + int (count_list p Insertion))"
        using "1.IH"(4) [OF _ _ _ _ _ ag] i0 Suc eq "1.prems" by simp
      then show ?thesis using i0 Suc eq
        by (auto simp: backtrack.simps [of r h dp 0 "Suc j'"] spec_table_row)
    qed
  next
    case i: (Suc i')
    show ?thesis
    proof (cases j)
      case 0
      have eq: "dp_get dp (Suc i') 0 = dp_get dp i' 0 + 1"
        using T [of "Suc i'" 0] T [of i' 0] "1.prems" i by simp
      have "\<exists>p. spec_backtrack r h i' 0 = Some p \<and>
           backtrack r h dp i' 0 s (d + 1) k =
             (0, 0, s + int (count_list p Substitution), d + 1 + int (count_list p Deletion),
              k + int (count_list p Insertion))"
        using "1.IH"(3) [OF _ _ _ _ ag] i 0 eq "1.prems" by simp
      then show ?thesis using i 0 eq
        by (auto simp: backtrack.simps [of r h dp "Suc i'" 0])
    next
      case j: (Suc j')
      have Tij: "dp_get dp (Suc i') (Suc j') = spec_table r h (Suc i') (Suc j')"
        and T11: "dp_get dp i' j' = spec_table r h i' j'"
        and T10: "dp_get dp i' (Suc j') = spec_table r h i' (Suc j')"
        and T01: "dp_get dp (Suc i') j' = spec_table r h (Suc i') j'"
        using T "1.prems" i j by simp_all
      note bs = backtrack.simps [of r h dp "Suc i'" "Suc j'"]
      note ss = spec_backtrack.simps(4) [of r h i' j']
      show ?thesis
      proof (cases "r ! i' = h ! j'")
        case True
        have "\<exists>p. spec_backtrack r h i' j' = Some p \<and>
           backtrack r h dp i' j' s d k =
             (0, 0, s + int (count_list p Substitution), d + int (count_list p Deletion),
              k + int (count_list p Insertion))"
          using "1.IH"(1) [OF _ _ ag] i j True "1.prems" by simp
        then show ?thesis using i j True
          by (auto simp: bs)
      next
        case False
        have ch: "dp_get dp (Suc i') (Suc j') = dp_get dp i' j' + 1 \<or>
                  dp_get dp (Suc i') (Suc j') = dp_get dp i' (Suc j') + 1 \<or>
                  dp_get dp (Suc i') (Suc j') = dp_get dp (Suc i') j' + 1"
          unfolding Tij T11 T10 T01 by (rule spec_table_choice [OF False])
        consider (sub) "dp_get dp (Suc i') (Suc j') = dp_get dp i' j' + 1"
          | (del) "dp_get dp (Suc i') (Suc j') \<noteq> dp_get dp i' j' + 1"
                  "dp_get dp (Suc i') (Suc j') = dp_get dp i' (Suc j') + 1"
          | (ins) "dp_get dp (Suc i') (Suc j') \<noteq> dp_get dp i' j' + 1"
                  "dp_get dp (Suc i') (Suc j') \<noteq> dp_get dp i' (Suc j') + 1"
                  "dp_get dp (Suc i') (Suc j') = dp_get dp (Suc i') j' + 1"
          using ch by blast
        then show ?thesis
        proof cases
          case sub
          have "\<exists>p. spec_backtrack r h i' j' = Some p \<and>
             backtrack r h dp i' j' (s + 1) d k =
               (0, 0, s + 1 + int (count_list p Substitution), d + int (count_list p Deletion),
                k + int (count_list p Insertion))"
            using "1.IH"(2) [OF _ _ _ ag] i j False sub "1.prems" by simp
          moreover have "spec_table r h (Suc i') (Suc j') = spec_table r h i' j' + 1"
            using sub unfolding Tij T11 .
          ultimately show ?thesis using i j False sub
            by (auto simp: bs simp del: spec_table.simps)
        next
          case del
          have "\<exists>p. spec_backtrack r h i' (Suc j') = Some p \<and>
             backtrack r h dp i' (Suc j') s (d + 1) k =
               (0, 0, s + int (count_list p Substitution), d + 1 + int (count_list p Deletion),
                k + int (count_list p Insertion))"
            using "1.IH"(3) [OF _ _ _ _ ag] i j False del "1.prems" by simp
          moreover have "spec_table r h (Suc i') (Suc j') \<noteq> spec_table r h i' j' + 1"
             "spec_table r h (Suc i') (Suc j') = spec_table r h i' (Suc j') + 1"
            using del unfolding Tij T11 T10 by blast+
          ultimately show ?thesis using i j False del
            by (auto simp: bs simp del: spec_table.simps)
        next
          case ins
          have "\<exists>p. spec_backtrack r h (Suc i') j' = Some p \<and>
             backtrack r h dp (Suc i') j' s d (k + 1) =
               (0, 0, s + int (count_list p Substitution), d + int (count_list p Deletion),
                k + 1 + int (count_list p Insertion))"
            using "1.IH"(4) [OF _ _ _ _ _ ag] i j False ins "1.prems" by simp
          moreover have "spec_table r h (Suc i') (Suc j') \<noteq> spec_table r h i' j' + 1"
             "spec_table r h (Suc i') (Suc j') \<noteq> spec_table r h i' (Suc j') + 1"
             "spec_table r h (Suc i') (Suc j') = spec_table r h (Suc i') j' + 1"
            using ins unfolding Tij T11 T10 T01 by blast+
          ultimately show ?thesis using i j False ins
            by (auto simp: bs simp del: spec_table.simps)
        qed
      qed
    qed
  qed
qed

subsection \<open>Claims about the alignment\<close>

text \<open>
  Claim C1. For every pair of token lists, the counts \<open>S\<close>, \<open>D\<close>, \<open>I\<close> returned by
  \<^verbatim>\<open>calcular_distancia_edicion\<close> are non-negative integers and their sum is the classical
  unit-cost Levenshtein distance between the reference and the hypothesis.
\<close>

theorem edit_counts_sum_levenshtein:
  "case calcular_distancia_edicion ref_words hyp_words of
     (S, D, I, dp) \<Rightarrow>
       0 \<le> S \<and> 0 \<le> D \<and> 0 \<le> I \<and> S + D + I = int (levenshtein ref_words hyp_words)"
proof -
  let ?r = ref_words and ?h = hyp_words
  obtain s' d' k' where
    "backtrack ?r ?h (fill_table ?r ?h) (length ?r) (length ?h) 0 0 0 = (0, 0, s', d', k')"
    "0 \<le> s'" "0 \<le> d'" "0 \<le> k'"
    "s' + d' + k' = 0 + 0 + 0 + spec_table ?r ?h (length ?r) (length ?h)"
    using backtrack_inv [OF table_agrees_fill, of "length ?r" ?r "length ?h" ?h 0 0 0] by auto
  then show ?thesis
    by (simp add: calcular_distancia_edicion_def Let_def spec_table_levenshtein)
qed

text \<open>
  Claim C8. For every pair of token lists, the counts returned by the backtracking of
  \<^verbatim>\<open>calcular_distancia_edicion\<close> are those of the path that the specification's fixed
  priority order determines from \<open>(n, m)\<close> down to \<open>(0, 0)\<close>: a match when the tokens are
  equal, otherwise a substitution, else a deletion, else an insertion, each under its test
  on the table. In particular that path exists: at no cell do all the tests fail.
\<close>

theorem backtrack_follows_priority_order:
  "spec_align ref_words hyp_words =
     Some (case calcular_distancia_edicion ref_words hyp_words of (S, D, I, dp) \<Rightarrow> (S, D, I))"
proof -
  let ?r = ref_words and ?h = hyp_words
  obtain p where "spec_backtrack ?r ?h (length ?r) (length ?h) = Some p"
    "backtrack ?r ?h (fill_table ?r ?h) (length ?r) (length ?h) 0 0 0 =
       (0, 0, 0 + int (count_list p Substitution), 0 + int (count_list p Deletion),
        0 + int (count_list p Insertion))"
    using backtrack_refines [OF table_agrees_fill, of "length ?r" ?r "length ?h" ?h 0 0 0] by auto
  then show ?thesis
    by (simp add: calcular_distancia_edicion_def Let_def spec_align_def spec_counts_def)
qed

text \<open>
  Claim C9. For every pair of token lists, the backtracking loop terminates by reaching
  \<open>i = 0\<close> and \<open>j = 0\<close>; the final \<^verbatim>\<open>else: break\<close> is never taken. The loop is a total
  function, and it is left at \<open>(0, 0)\<close> from every cell of the filled table, whatever the
  counters are: the start \<open>(n, m)\<close> and every cell visited afterwards are such cells, and a
  \<^verbatim>\<open>break\<close> at one of them would leave the loop there, at a position other than \<open>(0, 0)\<close>.
\<close>

theorem backtrack_reaches_origin:
  "\<forall>i \<le> length ref_words. \<forall>j \<le> length hyp_words.
     \<exists>S D I. backtrack ref_words hyp_words (fill_table ref_words hyp_words) i j s d k =
               (0, 0, S, D, I)"
  using backtrack_inv [OF table_agrees_fill, of _ ref_words _ hyp_words s d k] by blast

theorem backtrack_reaches_origin_witness:
  "(2::nat) \<le> length ''ab'' \<and> (1::nat) \<le> length ''b'' \<and>
   (\<exists>S D I. backtrack ''ab'' ''b'' (fill_table ''ab'' ''b'') 2 1 0 0 0 = (0, 0, S, D, I))"
proof -
  have a: "(2::nat) \<le> length ''ab''" and b: "(1::nat) \<le> length ''b''"
    by simp_all
  show ?thesis
    using a b backtrack_reaches_origin [of "''ab''" "''b''" 0 0 0, rule_format, OF a b] by blast
qed

text \<open>
  Claim C10. For every pair of token lists, the counts returned by
  \<^verbatim>\<open>calcular_distancia_edicion\<close> satisfy \<open>D - I = len(ref) - len(hyp)\<close>.
\<close>

theorem deletion_insertion_imbalance:
  "case calcular_distancia_edicion ref_words hyp_words of
     (S, D, I, dp) \<Rightarrow> D - I = int (length ref_words) - int (length hyp_words)"
proof -
  let ?r = ref_words and ?h = hyp_words
  obtain s' d' k' where
    "backtrack ?r ?h (fill_table ?r ?h) (length ?r) (length ?h) 0 0 0 = (0, 0, s', d', k')"
    "d' - k' = 0 - 0 + int (length ?r) - int (length ?h)"
    using backtrack_inv [OF table_agrees_fill, of "length ?r" ?r "length ?h" ?h 0 0 0] by auto
  then show ?thesis
    by (simp add: calcular_distancia_edicion_def Let_def)
qed

section \<open>Properties of the scorer\<close>

lemma counts_nonneg:
  "calcular_distancia_edicion r h = (S, D, I, dp) \<Longrightarrow> 0 \<le> S \<and> 0 \<le> D \<and> 0 \<le> I"
proof -
  assume a: "calcular_distancia_edicion r h = (S, D, I, dp)"
  obtain s' d' k' where
    "backtrack r h (fill_table r h) (length r) (length h) 0 0 0 = (0, 0, s', d', k')"
    "0 \<le> s'" "0 \<le> d'" "0 \<le> k'"
    using backtrack_inv [OF table_agrees_fill, of "length r" r "length h" h 0 0 0] by auto
  then show ?thesis using a
    by (simp add: calcular_distancia_edicion_def Let_def)
qed

lemma py_max_zero_Finite: "py_max_zero (Finite x) = Finite (max 0 x)"
  by (simp add: py_max_zero_def max_def)

lemma calcular_wer_unfold:
  assumes "str_split U (normalizar_texto U referencia) = ref_words"
    and "str_split U (normalizar_texto U hipotesis) = hyp_words"
    and "calcular_distancia_edicion ref_words hyp_words = (S, D, I, dp)"
  shows "calcular_wer U referencia hipotesis =
     Inr \<lparr> wer = (if ref_words = [] then (if hyp_words \<noteq> [] then PosInf else Finite 0)
                   else Finite (real_of_int (S + D + I) / real (length ref_words))),
           accuracy = (if ref_words = [] then Finite 0
                   else Finite (max 0 (1 - real_of_int (S + D + I) / real (length ref_words)))),
           sustituciones = S, eliminaciones = D, inserciones = I,
           total_errores = S + D + I, palabras_referencia = int (length ref_words),
           palabras_hipotesis = int (length hyp_words) \<rparr>"
  using assms
  by (simp add: calcular_wer_def Let_def py_truediv_def py_max_zero_Finite)

lemma calcular_wer_never_raises: "\<exists>m. calcular_wer U referencia hipotesis = Inr m"
proof -
  obtain S D I dp where
    "calcular_distancia_edicion (str_split U (normalizar_texto U referencia))
       (str_split U (normalizar_texto U hipotesis)) = (S, D, I, dp)"
    using prod_cases4 by blast
  from calcular_wer_unfold [OF refl refl this] show ?thesis by blast
qed

lemma calcular_wer_total_errores:
  "calcular_wer U a b = Inr m \<Longrightarrow> total_errores m = sustituciones m + eliminaciones m + inserciones m"
proof -
  assume a: "calcular_wer U a b = Inr m"
  obtain S D I dp where
    "calcular_distancia_edicion (str_split U (normalizar_texto U a))
       (str_split U (normalizar_texto U b)) = (S, D, I, dp)"
    using prod_cases4 by blast
  from calcular_wer_unfold [OF refl refl this] a show ?thesis by auto
qed

text \<open>
  Claim C4. For every reference/hypothesis pair whose reference token sequence is non-empty
  (\<open>N > 0\<close>), \<^verbatim>\<open>calcular_wer\<close> returns \<open>wer = (S + D + I) / N\<close> and
  \<open>accuracy = max(0, 1 - wer)\<close>; \<open>wer\<close> is at least \<open>0\<close> and is not clamped, so it may exceed
  \<open>1\<close>: the witness is the pair with reference \<open>a\<close> and hypothesis \<open>a b c\<close>, two insertions
  and \<open>wer = 2\<close>.
\<close>

theorem calcular_wer_formula:
  assumes "str_split U (normalizar_texto U referencia) = ref_words"
    and "str_split U (normalizar_texto U hipotesis) = hyp_words"
    and "calcular_distancia_edicion ref_words hyp_words = (S, D, I, dp)"
    and "length ref_words > 0"
  shows "\<exists>m. calcular_wer U referencia hipotesis = Inr m \<and>
           wer m = Finite (real_of_int (S + D + I) / real (length ref_words)) \<and>
           accuracy m = Finite (max 0 (1 - real_of_int (S + D + I) / real (length ref_words))) \<and>
           0 \<le> real_of_int (S + D + I) / real (length ref_words)"
proof -
  have "0 \<le> S + D + I" using counts_nonneg [OF assms(3)] by simp
  then have "0 \<le> real_of_int (S + D + I) / real (length ref_words)" by simp
  then show ?thesis using calcular_wer_unfold [OF assms(1-3)] assms(4) by simp
qed

theorem calcular_wer_formula_witness:
  "str_split ascii_db (normalizar_texto ascii_db (cps ''a'')) = [cps ''a''] \<and>
   str_split ascii_db (normalizar_texto ascii_db (cps ''a b c'')) = [cps ''a'', cps ''b'', cps ''c''] \<and>
   calcular_distancia_edicion [cps ''a''] [cps ''a'', cps ''b'', cps ''c'']
     = (0, 0, 2, [[0, 1, 2, 3], [1, 0, 1, 2]]) \<and>
   length [cps ''a''] > 0 \<and>
   (\<exists>m. calcular_wer ascii_db (cps ''a'') (cps ''a b c'') = Inr m \<and>
        wer m = Finite 2 \<and> accuracy m = Finite 0)"
proof -
  have a: "str_split ascii_db (normalizar_texto ascii_db (cps ''a'')) = [cps ''a'']"
    by code_simp
  have b: "str_split ascii_db (normalizar_texto ascii_db (cps ''a b c'')) = [cps ''a'', cps ''b'', cps ''c'']"
    by code_simp
  have c: "calcular_distancia_edicion [cps ''a''] [cps ''a'', cps ''b'', cps ''c'']
     = (0, 0, 2, [[0, 1, 2, 3], [1, 0, 1, 2]])"
    by code_simp
  have d: "length [cps ''a''] > 0" by simp
  show ?thesis using a b c d calcular_wer_formula [OF a b c d] by simp
qed

text \<open>
  Claim C5. When the reference token sequence is empty (\<open>N = 0\<close>) and the hypothesis token
  sequence is not, \<^verbatim>\<open>calcular_wer\<close> raises no exception and returns an infinite \<open>wer\<close> and
  an \<open>accuracy\<close> of \<open>0\<close>.
\<close>

theorem calcular_wer_empty_reference:
  assumes "str_split U (normalizar_texto U referencia) = []"
    and "str_split U (normalizar_texto U hipotesis) \<noteq> []"
  shows "\<exists>m. calcular_wer U referencia hipotesis = Inr m \<and> wer m = PosInf \<and> accuracy m = Finite 0"
proof -
  obtain S D I dp where
    "calcular_distancia_edicion [] (str_split U (normalizar_texto U hipotesis)) = (S, D, I, dp)"
    using prod_cases4 by blast
  from calcular_wer_unfold [OF assms(1) refl this] assms(2) show ?thesis by simp
qed

theorem calcular_wer_empty_reference_witness:
  "str_split ascii_db (normalizar_texto ascii_db (cps ''...'')) = [] \<and>
   str_split ascii_db (normalizar_texto ascii_db (cps ''hola'')) \<noteq> [] \<and>
   (\<exists>m. calcular_wer ascii_db (cps ''...'') (cps ''hola'') = Inr m \<and> wer m = PosInf \<and> accuracy m = Finite 0)"
proof -
  have a: "str_split ascii_db (normalizar_texto ascii_db (cps ''...'')) = []"
    by code_simp
  have b: "str_split ascii_db (normalizar_texto ascii_db (cps ''hola'')) \<noteq> []"
    by code_simp
  show ?thesis using a b calcular_wer_empty_reference [OF a b] by simp
qed

text \<open>
  Claim C2 says that for an empty reference token sequence and an empty hypothesis token
  sequence \<^verbatim>\<open>calcular_wer\<close> returns \<open>wer = 0\<close> and \<open>accuracy = 1\<close>. On the pair of empty
  transcriptions the function returns \<open>wer = 0\<close> together with \<open>accuracy = 0\<close>: the branch for
  \<open>N = 0\<close> tells the two cases apart for \<open>wer\<close> but sets \<open>accuracy\<close> to \<open>0\<close> in both, whereas
  the other branch computes \<open>accuracy = max(0, 1 - wer)\<close>, which is \<open>1\<close> at \<open>wer = 0\<close>.
\<close>

theorem calcular_wer_both_empty:
  "calcular_wer ascii_db (cps '''') (cps '''') =
     Inr \<lparr> wer = Finite 0, accuracy = Finite 0, sustituciones = 0, eliminaciones = 0,
           inserciones = 0, total_errores = 0, palabras_referencia = 0,
           palabras_hipotesis = 0 \<rparr>"
proof -
  have a: "str_split ascii_db (normalizar_texto ascii_db (cps '''')) = []"
    by code_simp
  have c: "calcular_distancia_edicion ([] :: str list) [] = (0, 0, 0, [[0]])"
    by code_simp
  show ?thesis using calcular_wer_unfold [OF a a c] by simp
qed

section \<open>Properties of the corpus aggregator\<close>

lemma procesar_result:
  "\<exists>ms.
     procesar U ps i (rs, S, D, I, N, out) =
       Inr (rs @ ms,
            S + sum_list (map sustituciones ms), D + sum_list (map eliminaciones ms),
            I + sum_list (map inserciones ms), N + sum_list (map palabras_referencia ms),
            out @ concat (map (\<lambda>(n, m). lineas_par n m) (zip [i..<i + length ps] ms))) \<and>
     map Inr ms = map (\<lambda>(manual, openai). calcular_wer U manual openai) ps"
proof (induction ps arbitrary: i rs S D I N out)
  case Nil
  show ?case by simp
next
  case (Cons p ps)
  obtain manual openai where p: "p = (manual, openai)" by (cases p)
  obtain m where m: "calcular_wer U manual openai = Inr m"
    using calcular_wer_never_raises by blast
  obtain ms where IH:
    "procesar U ps (i + 1) (rs @ [m], S + sustituciones m, D + eliminaciones m,
        I + inserciones m, N + palabras_referencia m, out @ lineas_par i m) =
       Inr ((rs @ [m]) @ ms,
            (S + sustituciones m) + sum_list (map sustituciones ms),
            (D + eliminaciones m) + sum_list (map eliminaciones ms),
            (I + inserciones m) + sum_list (map inserciones ms),
            (N + palabras_referencia m) + sum_list (map palabras_referencia ms),
            (out @ lineas_par i m)
              @ concat (map (\<lambda>(n, m). lineas_par n m) (zip [i + 1..<i + 1 + length ps] ms)))"
    "map Inr ms = map (\<lambda>(manual, openai). calcular_wer U manual openai) ps"
    using Cons.IH by blast
  have "[i..<i + length (p # ps)] = i # [Suc i..<i + length (p # ps)]"
    by (rule upt_conv_Cons) simp
  moreover have "[Suc i..<i + length (p # ps)] = [i + 1..<i + 1 + length ps]"
    by simp
  ultimately have up: "[i..<i + length (p # ps)] = i # [i + 1..<i + 1 + length ps]"
    by (simp only:)
  have step: "procesar U (p # ps) i (rs, S, D, I, N, out) =
      procesar U ps (i + 1) (rs @ [m], S + sustituciones m, D + eliminaciones m,
        I + inserciones m, N + palabras_referencia m, out @ lineas_par i m)"
    using m p by (simp add: lineas_par_def)
  show ?case
    apply (rule exI [of _ "m # ms"])
    unfolding step IH(1) up
    using IH(2) m p by simp
qed

lemma agregar_result:
  fixes manual openai :: "str list"
  defines "k \<equiv> min (length manual) (length openai)"
  defines "aviso \<equiv> (if length manual \<noteq> length openai
                     then [AdvertenciaNoCoincide,
                           LongitudesManualOpenAI (length manual) (length openai)]
                     else [])"
  shows "(k = 0 \<longrightarrow> agregar U out manual openai = Inr (out @ aviso @ [ErrorSinTranscripciones], None)) \<and>
         (k > 0 \<longrightarrow> (\<exists>ms wt.
            agregar U out manual openai =
              Inr (out @ aviso @ [Procesando k]
                     @ concat (map (\<lambda>(n, m). lineas_par n m) (zip [1..<1 + k] ms)),
                   Some \<lparr> wer_promedio = np_mean (map wer ms),
                          wer_total = wt,
                          accuracy_promedio = np_mean (map accuracy ms),
                          accuracy_total = py_max_zero (py_one_minus wt),
                          total_sustituciones = sum_list (map sustituciones ms),
                          total_eliminaciones = sum_list (map eliminaciones ms),
                          total_inserciones = sum_list (map inserciones ms),
                          total_errores_corpus = sum_list (map sustituciones ms)
                             + sum_list (map eliminaciones ms) + sum_list (map inserciones ms),
                          total_palabras_referencia = sum_list (map palabras_referencia ms),
                          num_transcripciones = length ms,
                          resultados_individuales = ms \<rparr>) \<and>
            length ms = k \<and>
            map Inr ms = map (\<lambda>(a, b). calcular_wer U a b) (zip (take k manual) (take k openai)) \<and>
            wt = (if sum_list (map palabras_referencia ms) > 0
                  then Finite (real_of_int (sum_list (map sustituciones ms)
                             + sum_list (map eliminaciones ms) + sum_list (map inserciones ms))
                          / real_of_int (sum_list (map palabras_referencia ms)))
                  else PosInf)))"
proof (intro conjI impI)
  assume "k = 0"
  then show "agregar U out manual openai = Inr (out @ aviso @ [ErrorSinTranscripciones], None)"
    by (auto simp: agregar_def k_def aviso_def Let_def min_def split: if_splits)
next
  assume k: "k > 0"
  let ?tm = "take k manual" and ?to = "take k openai"
  let ?out1 = "out @ aviso"
  have ne: "?tm \<noteq> []" using k by (auto simp: k_def)
  have len: "length ?tm = k" by (simp add: k_def)
  have lenz: "length (zip ?tm ?to) = k" by (simp add: k_def)
  obtain ms where P:
    "procesar U (zip ?tm ?to) 1 ([], 0, 0, 0, 0, ?out1 @ [Procesando k]) =
       Inr ([] @ ms,
            0 + sum_list (map sustituciones ms), 0 + sum_list (map eliminaciones ms),
            0 + sum_list (map inserciones ms), 0 + sum_list (map palabras_referencia ms),
            (?out1 @ [Procesando k])
              @ concat (map (\<lambda>(n, m). lineas_par n m) (zip [1..<1 + length (zip ?tm ?to)] ms)))"
    "map Inr ms = map (\<lambda>(manual, openai). calcular_wer U manual openai) (zip ?tm ?to)"
    using procesar_result [of U "zip ?tm ?to" 1 "[]" 0 0 0 0 "?out1 @ [Procesando k]"] by blast
  have lms: "length ms = k"
    using P(2) lenz by (metis length_map)
  have eq: "agregar U out manual openai =
      (if ?tm = [] then Inr (?out1 @ [ErrorSinTranscripciones], None)
         else
           case procesar U (zip ?tm ?to) 1
                  ([], 0, 0, 0, 0, ?out1 @ [Procesando (length ?tm)]) of
             Inl e \<Rightarrow> Inl e
           | Inr (resultados, S_total, D_total, I_total, N_total, out2) \<Rightarrow>
               (case (if N_total > 0 then py_truediv (S_total + D_total + I_total) N_total
                      else Inr PosInf) of
                  Inl e \<Rightarrow> Inl e
                | Inr wer_tot \<Rightarrow>
                    Inr (out2,
                         Some \<lparr> wer_promedio = np_mean (map wer resultados),
                                wer_total = wer_tot,
                                accuracy_promedio = np_mean (map accuracy resultados),
                                accuracy_total = py_max_zero (py_one_minus wer_tot),
                                total_sustituciones = S_total,
                                total_eliminaciones = D_total,
                                total_inserciones = I_total,
                                total_errores_corpus = S_total + D_total + I_total,
                                total_palabras_referencia = N_total,
                                num_transcripciones = length resultados,
                                resultados_individuales = resultados \<rparr>)))"
    by (auto simp: agregar_def k_def aviso_def Let_def min_def)
  show "\<exists>ms wt.
            agregar U out manual openai =
              Inr (out @ aviso @ [Procesando k]
                     @ concat (map (\<lambda>(n, m). lineas_par n m) (zip [1..<1 + k] ms)),
                   Some \<lparr> wer_promedio = np_mean (map wer ms),
                          wer_total = wt,
                          accuracy_promedio = np_mean (map accuracy ms),
                          accuracy_total = py_max_zero (py_one_minus wt),
                          total_sustituciones = sum_list (map sustituciones ms),
                          total_eliminaciones = sum_list (map eliminaciones ms),
                          total_inserciones = sum_list (map inserciones ms),
                          total_errores_corpus = sum_list (map sustituciones ms)
                             + sum_list (map eliminaciones ms) + sum_list (map inserciones ms),
                          total_palabras_referencia = sum_list (map palabras_referencia ms),
                          num_transcripciones = length ms,
                          resultados_individuales = ms \<rparr>) \<and>
            length ms = k \<and>
            map Inr ms = map (\<lambda>(a, b). calcular_wer U a b) (zip (take k manual) (take k openai)) \<and>
            wt = (if sum_list (map palabras_referencia ms) > 0
                  then Finite (real_of_int (sum_list (map sustituciones ms)
                             + sum_list (map eliminaciones ms) + sum_list (map inserciones ms))
                          / real_of_int (sum_list (map palabras_referencia ms)))
                  else PosInf)"
    apply (rule exI [of _ ms])
    using P(1) [unfolded lenz] P(2) ne len lms by (simp add: eq py_truediv_def)
qed

text \<open>
  Claim C3 says that in \<^verbatim>\<open>calcular_wer_total\<close>, when at least one pair is processed,
  \<open>wer_total\<close> is \<open>(S_total + D_total + I_total) / N_total\<close> when \<open>N_total > 0\<close> and is \<open>0\<close>
  when \<open>N_total = 0\<close>, the infinite sentinel being used only when \<open>N_total = 0\<close> and errors
  exist. On the corpus of one pair whose two transcriptions are \<open>...\<close> and \<open>!!!\<close>, both
  token sequences are empty: \<open>N_total = 0\<close>, there is no error, the pair's own \<open>wer\<close> and the
  mean \<open>wer_promedio\<close> are \<open>0\<close>, and yet \<open>wer_total\<close> is infinite. The guard of the
  aggregator, \<^verbatim>\<open>else float('inf')\<close>, does not tell the two cases apart, whereas the guard of
  \<^verbatim>\<open>calcular_wer\<close> for the same situation does (\<^verbatim>\<open>inf if len(hyp_words) > 0 else 0.0\<close>).
\<close>

theorem wer_total_zero_words:
  "calcular_wer_total ejemplo_fs_puntuacion ascii_db ''manual.txt'' ''openai.txt'' =
     Inr ([Procesando 1, LineaTranscripcion 1 (Finite 0) (Finite 0),
           LineaErrores 0 0 0, LineaPalabras 0 0],
          Some \<lparr> wer_promedio = Finite 0, wer_total = PosInf,
                 accuracy_promedio = Finite 0, accuracy_total = Finite 0,
                 total_sustituciones = 0, total_eliminaciones = 0, total_inserciones = 0,
                 total_errores_corpus = 0, total_palabras_referencia = 0,
                 num_transcripciones = 1,
                 resultados_individuales =
                   [\<lparr> wer = Finite 0, accuracy = Finite 0, sustituciones = 0,
                      eliminaciones = 0, inserciones = 0, total_errores = 0,
                      palabras_referencia = 0, palabras_hipotesis = 0 \<rparr>] \<rparr>)"
  by code_simp

text \<open>
  Claim C6. When the two lists of transcriptions read from the files differ in length, the
  aggregator prints, before anything else of its own, the warning and the line naming both
  original lengths, raises no exception, and goes on with both lists cut to the shorter
  length \<open>min(len(manual), len(openai))\<close>, in their original order. If that length is \<open>0\<close>,
  the only further line is the error that no transcription was found, and no summary is
  returned. Otherwise the next line announces exactly that many transcriptions, the lines
  that follow are those of the pairs numbered from \<open>1\<close> to that length, and the summary
  holds exactly that many results: the results of \<^verbatim>\<open>calcular_wer\<close> on the pairs of the two
  cut lists, in order.
\<close>

theorem length_mismatch_truncates:
  assumes "extraer_transcripciones fs U archivo_manual = (out_manual, manual)"
    and "extraer_transcripciones fs U archivo_openai = (out_openai, openai)"
    and "length manual \<noteq> length openai"
  shows
    "(min (length manual) (length openai) = 0 \<longrightarrow>
        calcular_wer_total fs U archivo_manual archivo_openai =
          Inr (out_manual @ out_openai @
                 [AdvertenciaNoCoincide,
                  LongitudesManualOpenAI (length manual) (length openai),
                  ErrorSinTranscripciones],
               None)) \<and>
     (min (length manual) (length openai) > 0 \<longrightarrow>
        (\<exists>s. calcular_wer_total fs U archivo_manual archivo_openai =
               Inr (out_manual @ out_openai @
                      [AdvertenciaNoCoincide,
                       LongitudesManualOpenAI (length manual) (length openai),
                       Procesando (min (length manual) (length openai))] @
                      concat (map (\<lambda>(n, m). lineas_par n m)
                                (zip [1..<1 + min (length manual) (length openai)]
                                     (resultados_individuales s))),
                    Some s) \<and>
             num_transcripciones s = min (length manual) (length openai) \<and>
             length (resultados_individuales s) = min (length manual) (length openai) \<and>
             map Inr (resultados_individuales s) =
               map (\<lambda>(referencia, hipotesis). calcular_wer U referencia hipotesis)
                 (zip (take (min (length manual) (length openai)) manual)
                      (take (min (length manual) (length openai)) openai))))"
proof -
  let ?k = "min (length manual) (length openai)"
  have ag: "calcular_wer_total fs U archivo_manual archivo_openai =
      agregar U (out_manual @ out_openai) manual openai"
    using assms(1,2) by (simp add: calcular_wer_total_def)
  note R = agregar_result [of manual openai U "out_manual @ out_openai"]
  show ?thesis
  proof (intro conjI impI)
    assume "?k = 0"
    with R assms(3) show "calcular_wer_total fs U archivo_manual archivo_openai =
          Inr (out_manual @ out_openai @
                 [AdvertenciaNoCoincide,
                  LongitudesManualOpenAI (length manual) (length openai),
                  ErrorSinTranscripciones],
               None)"
      unfolding ag by simp
  next
    assume "?k > 0"
    with R assms(3) obtain ms s where
      a: "agregar U (out_manual @ out_openai) manual openai =
         Inr ((out_manual @ out_openai) @
              [AdvertenciaNoCoincide, LongitudesManualOpenAI (length manual) (length openai)]
              @ [Procesando ?k] @ concat (map (\<lambda>(n, m). lineas_par n m) (zip [1..<1 + ?k] ms)),
              Some s)"
      and b: "resultados_individuales s = ms" "num_transcripciones s = length ms"
        "length ms = ?k"
        "map Inr ms = map (\<lambda>(a, b). calcular_wer U a b) (zip (take ?k manual) (take ?k openai))"
      by auto
    show "\<exists>s. calcular_wer_total fs U archivo_manual archivo_openai =
               Inr (out_manual @ out_openai @
                      [AdvertenciaNoCoincide,
                       LongitudesManualOpenAI (length manual) (length openai),
                       Procesando ?k] @
                      concat (map (\<lambda>(n, m). lineas_par n m)
                                (zip [1..<1 + ?k] (resultados_individuales s))),
                    Some s) \<and>
             num_transcripciones s = ?k \<and>
             length (resultados_individuales s) = ?k \<and>
             map Inr (resultados_individuales s) =
               map (\<lambda>(referencia, hipotesis). calcular_wer U referencia hipotesis)
                 (zip (take ?k manual) (take ?k openai))"
      apply (rule exI [of _ s])
      unfolding ag a b(1)
      using b(2-4) by simp
  qed
qed

theorem length_mismatch_truncates_witness:
  "extraer_transcripciones ejemplo_fs_desigual ascii_db ''manual.txt''
     = ([], [cps ''hola mundo'', cps ''adios'']) \<and>
   extraer_transcripciones ejemplo_fs_desigual ascii_db ''openai.txt'' = ([], [cps ''hola'']) \<and>
   extraer_transcripciones ejemplo_fs_desigual ascii_db ''ausente.txt''
     = ([ErrorArchivoNoEncontrado ''ausente.txt''], []) \<and>
   length [cps ''hola mundo'', cps ''adios''] \<noteq> length [cps ''hola''] \<and>
   length [cps ''hola mundo'', cps ''adios''] \<noteq> length ([] :: str list) \<and>
   (\<exists>s. calcular_wer_total ejemplo_fs_desigual ascii_db ''manual.txt'' ''openai.txt'' =
          Inr ([AdvertenciaNoCoincide, LongitudesManualOpenAI 2 1, Procesando 1] @
                 concat (map (\<lambda>(n, m). lineas_par n m) (zip [1..<2] (resultados_individuales s))),
               Some s) \<and>
        num_transcripciones s = 1 \<and>
        map Inr (resultados_individuales s) =
          [calcular_wer ascii_db (cps ''hola mundo'') (cps ''hola'')]) \<and>
   calcular_wer_total ejemplo_fs_desigual ascii_db ''manual.txt'' ''ausente.txt'' =
     Inr ([ErrorArchivoNoEncontrado ''ausente.txt'', AdvertenciaNoCoincide,
           LongitudesManualOpenAI 2 0, ErrorSinTranscripciones],
          None)"
proof -
  have a: "extraer_transcripciones ejemplo_fs_desigual ascii_db ''manual.txt''
     = ([], [cps ''hola mundo'', cps ''adios''])"
    by code_simp
  have b: "extraer_transcripciones ejemplo_fs_desigual ascii_db ''openai.txt'' = ([], [cps ''hola''])"
    by code_simp
  have c: "extraer_transcripciones ejemplo_fs_desigual ascii_db ''ausente.txt''
     = ([ErrorArchivoNoEncontrado ''ausente.txt''], [])"
    by code_simp
  have d: "length [cps ''hola mundo'', cps ''adios''] \<noteq> length [cps ''hola'']"
    by simp
  have e: "length [cps ''hola mundo'', cps ''adios''] \<noteq> length ([] :: str list)"
    by simp
  have f: "\<exists>s. calcular_wer_total ejemplo_fs_desigual ascii_db ''manual.txt'' ''openai.txt'' =
          Inr ([AdvertenciaNoCoincide, LongitudesManualOpenAI 2 1, Procesando 1] @
                 concat (map (\<lambda>(n, m). lineas_par n m) (zip [1..<2] (resultados_individuales s))),
               Some s) \<and>
        num_transcripciones s = 1 \<and>
        map Inr (resultados_individuales s) =
          [calcular_wer ascii_db (cps ''hola mundo'') (cps ''hola'')]"
    using length_mismatch_truncates [OF a b d] by (auto simp: numeral_2_eq_2)
  have g: "calcular_wer_total ejemplo_fs_desigual ascii_db ''manual.txt'' ''ausente.txt'' =
     Inr ([ErrorArchivoNoEncontrado ''ausente.txt'', AdvertenciaNoCoincide,
           LongitudesManualOpenAI 2 0, ErrorSinTranscripciones],
          None)"
    using length_mismatch_truncates [OF a c e] by (simp add: numeral_2_eq_2)
  show ?thesis by (intro conjI a b c d e f g)
qed

section \<open>Properties of the normaliser\<close>

lemma re_sub_spaces_head:
  "\<not> isspace U c \<Longrightarrow> re_sub_spaces U (c # cs) = c # re_sub_spaces U cs"
  by simp

lemma dropWhile_head: "dropWhile P xs = y # ys \<Longrightarrow> \<not> P y"
  by (metis hd_dropWhile list.sel(1) list.distinct(1))

lemma collapsed_re_sub_spaces: "collapsed U (re_sub_spaces U t)"
proof (induction U t rule: re_sub_spaces.induct)
  case (1 U)
  show ?case by simp
next
  case (2 U c cs)
  show ?case
  proof (cases "isspace U c")
    case True
    have "case re_sub_spaces U (dropWhile (isspace U) cs) of [] \<Rightarrow> True | d # ds \<Rightarrow> \<not> isspace U d"
    proof (cases "dropWhile (isspace U) cs")
      case Nil
      then show ?thesis by (simp del: dropWhile_eq_Nil_conv)
    next
      case (Cons y ys)
      then have "\<not> isspace U y" by (rule dropWhile_head)
      then show ?thesis using Cons by simp
    qed
    then show ?thesis using True 2 by simp
  next
    case False
    then show ?thesis using 2 by simp
  qed
qed

lemma re_sub_spaces_collapsed: "collapsed U t \<Longrightarrow> re_sub_spaces U t = t"
proof (induction t)
  case Nil
  show ?case by simp
next
  case (Cons c cs)
  show ?case
  proof (cases "isspace U c")
    case True
    with Cons.prems have "dropWhile (isspace U) cs = cs" by (cases cs) auto
    with True Cons show ?thesis by simp
  next
    case False
    with Cons show ?thesis by simp
  qed
qed

lemma collapsed_dropWhile: "collapsed U t \<Longrightarrow> collapsed U (dropWhile P t)"
  by (induction t) auto

lemma collapsed_append_left: "collapsed U (xs @ ys) \<Longrightarrow> collapsed U xs"
proof (induction xs)
  case Nil
  show ?case by simp
next
  case (Cons c xs)
  then show ?case by (cases xs) (auto split: list.splits)
qed

lemma strip_prefix:
  "dropWhile P t = rev (dropWhile P (rev (dropWhile P t))) @ rev (takeWhile P (rev (dropWhile P t)))"
  by (metis rev_append rev_rev_ident takeWhile_dropWhile_id)

lemma collapsed_str_strip: "collapsed U t \<Longrightarrow> collapsed U (str_strip U t)"
proof -
  assume "collapsed U t"
  then have "collapsed U (dropWhile (isspace U) t)" by (rule collapsed_dropWhile)
  then have "collapsed U (rev (dropWhile (isspace U) (rev (dropWhile (isspace U) t)))
       @ rev (takeWhile (isspace U) (rev (dropWhile (isspace U) t))))"
    using strip_prefix [of "isspace U" t] by simp
  then show ?thesis unfolding str_strip_def by (rule collapsed_append_left)
qed

lemma set_str_strip: "set (str_strip U t) \<subseteq> set t"
proof -
  have "set (dropWhile (isspace U) (rev (dropWhile (isspace U) t))) \<subseteq> set (rev (dropWhile (isspace U) t))"
    by (rule set_dropWhileD [THEN subsetI]) 
  also have "\<dots> \<subseteq> set t" using set_dropWhileD [of _ "isspace U" t] by auto
  finally show ?thesis by (simp add: str_strip_def)
qed

lemma str_strip_idem: "str_strip U (str_strip U t) = str_strip U t"
proof -
  let ?P = "isspace U"
  let ?u = "dropWhile ?P t"
  let ?w = "dropWhile ?P (rev ?u)"
  have s: "str_strip U t = rev ?w" by (simp add: str_strip_def)
  have front: "dropWhile ?P (rev ?w) = rev ?w"
  proof (cases "?w = []")
    case True
    then show ?thesis by (simp del: dropWhile_eq_Nil_conv)
  next
    case False
    have "rev ?u = takeWhile ?P (rev ?u) @ ?w" by simp
    then have "last (rev ?u) = last ?w" using False by (metis last_appendR)
    moreover have "?u \<noteq> []"
    proof
      assume "?u = []"
      then have "?w = []" by (simp only: rev.simps dropWhile.simps)
      with False show False by simp
    qed
    ultimately have "hd ?u = last ?w" by (simp add: last_rev)
    moreover have "\<not> ?P (hd ?u)" using \<open>?u \<noteq> []\<close> by (rule hd_dropWhile)
    ultimately have "\<not> ?P (hd (rev ?w))" using False by (simp add: hd_rev)
    then show ?thesis using False by (cases "rev ?w") auto
  qed
  show ?thesis
    unfolding s
    by (simp add: str_strip_def front)
qed

lemma db_lower_out:
  "unicode_db_ok U \<Longrightarrow> c \<in> set (str_lower U x) \<Longrightarrow> lower_fixed U c"
  unfolding unicode_db_ok_def by (elim conjE) (erule allE, erule bspec)

lemma db_lower_id:
  "unicode_db_ok U \<Longrightarrow> (\<And>c. c \<in> set z \<Longrightarrow> lower_fixed U c) \<Longrightarrow> str_lower U z = z"
  unfolding unicode_db_ok_def by (elim conjE) (erule allE [of _ z], erule mp, rule ballI)

lemma db_nfd_lower:
  "unicode_db_ok U \<Longrightarrow> (\<And>c. c \<in> set z \<Longrightarrow> lower_fixed U c) \<Longrightarrow>
   d \<in> set (normalize_NFD U z) \<Longrightarrow> lower_fixed U d"
proof -
  assume ok: "unicode_db_ok U" and z: "\<And>c. c \<in> set z \<Longrightarrow> lower_fixed U c"
    and d: "d \<in> set (normalize_NFD U z)"
  from ok have "\<forall>z. (\<forall>c \<in> set z. lower_fixed U c) \<longrightarrow>
          (\<forall>d \<in> set (normalize_NFD U z). lower_fixed U d)"
    unfolding unicode_db_ok_def by (elim conjE)
  then have "(\<forall>c \<in> set z. lower_fixed U c) \<longrightarrow>
          (\<forall>d \<in> set (normalize_NFD U z). lower_fixed U d)" by (rule spec)
  moreover have "\<forall>c \<in> set z. lower_fixed U c" using z by (rule ballI)
  ultimately have "\<forall>d \<in> set (normalize_NFD U z). lower_fixed U d" by (rule mp)
  then show ?thesis using d by (rule bspec)
qed

lemma db_nfd_out:
  "unicode_db_ok U \<Longrightarrow> d \<in> set (normalize_NFD U z) \<Longrightarrow> nfd_fixed U d"
proof -
  assume ok: "unicode_db_ok U" and d: "d \<in> set (normalize_NFD U z)"
  from ok have "\<forall>z. \<forall>d \<in> set (normalize_NFD U z). nfd_fixed U d"
    unfolding unicode_db_ok_def by (elim conjE)
  then have "\<forall>d \<in> set (normalize_NFD U z). nfd_fixed U d" by (rule spec)
  then show ?thesis using d by (rule bspec)
qed

lemma db_nfd_id:
  "unicode_db_ok U \<Longrightarrow>
   (\<And>c. c \<in> set z \<Longrightarrow> nfd_fixed U c \<and> (re_word U c \<or> c = chr_space)) \<Longrightarrow>
   normalize_NFD U z = z"
proof -
  assume ok: "unicode_db_ok U"
    and z: "\<And>c. c \<in> set z \<Longrightarrow> nfd_fixed U c \<and> (re_word U c \<or> c = chr_space)"
  from ok have "\<forall>z. (\<forall>c \<in> set z. nfd_fixed U c \<and> (re_word U c \<or> c = chr_space)) \<longrightarrow>
          normalize_NFD U z = z"
    unfolding unicode_db_ok_def by (elim conjE)
  then have "(\<forall>c \<in> set z. nfd_fixed U c \<and> (re_word U c \<or> c = chr_space)) \<longrightarrow>
          normalize_NFD U z = z" by (rule spec)
  moreover have "\<forall>c \<in> set z. nfd_fixed U c \<and> (re_word U c \<or> c = chr_space)"
    using z by (rule ballI)
  ultimately show ?thesis by (rule mp)
qed

lemma db_space:
  "unicode_db_ok U \<Longrightarrow>
   isspace U chr_space \<and> lower_fixed U chr_space \<and> nfd_fixed U chr_space \<and>
   \<not> category_Mn U chr_space"
  unfolding unicode_db_ok_def by (elim conjE) (intro conjI)

lemma set_re_sub_spaces:
  "c \<in> set (re_sub_spaces U t) \<Longrightarrow> c = chr_space \<or> (c \<in> set t \<and> \<not> isspace U c)"
proof (induction U t rule: re_sub_spaces.induct)
  case (1 U)
  then show ?case by simp
next
  case (2 U d cs)
  show ?case
  proof (cases "isspace U d")
    case True
    then have "c = chr_space \<or> c \<in> set (re_sub_spaces U (dropWhile (isspace U) cs))"
      using "2.prems" by simp
    then show ?thesis
    proof
      assume "c = chr_space"
      then show ?thesis by simp
    next
      assume "c \<in> set (re_sub_spaces U (dropWhile (isspace U) cs))"
      then have "c = chr_space \<or> (c \<in> set (dropWhile (isspace U) cs) \<and> \<not> isspace U c)"
        using "2.IH"(1) [OF True] by simp
      then show ?thesis using set_dropWhileD [of c "isspace U" cs] by auto
    qed
  next
    case False
    then have "c = d \<or> c \<in> set (re_sub_spaces U cs)"
      using "2.prems" by simp
    then show ?thesis using "2.IH"(2) [OF False] False by auto
  qed
qed

lemma normalizar_texto_settled:
  assumes ok: "unicode_db_ok U" and c: "c \<in> set (normalizar_texto U x)"
  shows "settled U c"
proof -
  let ?z1 = "str_lower U x"
  let ?z2 = "normalize_NFD U ?z1"
  let ?z3 = "filter (\<lambda>char. \<not> category_Mn U char) ?z2"
  let ?z4 = "re_sub_nonword U ?z3"
  let ?z5 = "re_sub_spaces U ?z4"
  note sp = db_space [OF ok]
  have z2: "lower_fixed U d \<and> nfd_fixed U d" if "d \<in> set ?z2" for d
    using db_nfd_lower [OF ok _ that] db_lower_out [OF ok] db_nfd_out [OF ok that] by simp
  have "normalizar_texto U x = str_strip U ?z5"
    by (simp add: normalizar_texto_def Let_def)
  then have "c \<in> set ?z5" using c set_str_strip [of U ?z5] by auto
  then have "c = chr_space \<or> (c \<in> set ?z4 \<and> \<not> isspace U c)"
    by (rule set_re_sub_spaces)
  then show ?thesis
  proof
    assume "c = chr_space"
    then show ?thesis using sp by (simp add: settled_def)
  next
    assume a: "c \<in> set ?z4 \<and> \<not> isspace U c"
    then obtain e where e: "e \<in> set ?z3"
      and ce: "c = (if re_word U e \<or> isspace U e then e else chr_space)"
      by (auto simp: re_sub_nonword_def)
    show ?thesis
    proof (cases "re_word U e \<or> isspace U e")
      case True
      then have "c = e" using ce by simp
      moreover have "e \<in> set ?z2" "\<not> category_Mn U e" using e by simp_all
      ultimately show ?thesis using z2 [of e] a True by (simp add: settled_def)
    next
      case False
      then have "c = chr_space" using ce by simp
      then show ?thesis using sp by (simp add: settled_def)
    qed
  qed
qed

lemma normalizar_texto_collapsed: "collapsed U (normalizar_texto U x)"
proof -
  have "normalizar_texto U x = str_strip U (re_sub_spaces U (re_sub_nonword U
        (filter (\<lambda>char. \<not> category_Mn U char) (normalize_NFD U (str_lower U x)))))"
    by (simp add: normalizar_texto_def Let_def)
  then show ?thesis by (simp only: collapsed_str_strip collapsed_re_sub_spaces)
qed

lemma ascii_lower_idem: "ascii_lower (ascii_lower c) = ascii_lower c"
  by (simp add: ascii_lower_def)

lemma ascii_db_ok: "unicode_db_ok ascii_db"
proof -
  have lf: "lower_fixed ascii_db c \<longleftrightarrow> ascii_lower c = c" for c
    by (simp add: lower_fixed_def ascii_db_def)
  have nf: "nfd_fixed ascii_db c" for c
    by (simp add: nfd_fixed_def ascii_db_def)
  have sl: "str_lower ascii_db x = map ascii_lower x" for x
    by (simp add: ascii_db_def)
  have a: "\<forall>x. \<forall>c \<in> set (str_lower ascii_db x). lower_fixed ascii_db c"
    by (auto simp: lf sl ascii_lower_idem)
  have b: "\<forall>z. (\<forall>c \<in> set z. lower_fixed ascii_db c) \<longrightarrow> str_lower ascii_db z = z"
  proof (intro allI impI)
    fix z assume "\<forall>c \<in> set z. lower_fixed ascii_db c"
    then have "map ascii_lower z = z" by (intro map_idI) (simp add: lf)
    then show "str_lower ascii_db z = z" by (simp add: ascii_db_def)
  qed
  have c: "\<forall>z. (\<forall>c \<in> set z. lower_fixed ascii_db c) \<longrightarrow>
          (\<forall>d \<in> set (normalize_NFD ascii_db z). lower_fixed ascii_db d)"
    by (simp add: ascii_db_def)
  have d: "\<forall>z. \<forall>d \<in> set (normalize_NFD ascii_db z). nfd_fixed ascii_db d"
    by (simp add: nf)
  have e: "\<forall>z. (\<forall>c \<in> set z. nfd_fixed ascii_db c \<and> (re_word ascii_db c \<or> c = chr_space)) \<longrightarrow>
          normalize_NFD ascii_db z = z"
    by (simp add: ascii_db_def)
  have f: "isspace ascii_db chr_space" by (simp add: ascii_db_def ascii_space_def chr_space_def)
  have g: "lower_fixed ascii_db chr_space" by (simp add: lf ascii_lower_def chr_space_def)
  have h: "\<not> category_Mn ascii_db chr_space" by (simp add: ascii_db_def)
  show ?thesis unfolding unicode_db_ok_def
    by (intro conjI a b c d e f g nf h)
qed

text \<open>
  Claim C7. The normaliser is idempotent: for every string \<open>x\<close>,
  \<open>normalize(normalize(x)) = normalize(x)\<close>. This holds for every character database with
  the closure properties \<open>unicode_db_ok\<close>, of which the ASCII database is one.
\<close>

theorem normalizar_texto_idempotent:
  assumes ok: "unicode_db_ok U"
  shows "normalizar_texto U (normalizar_texto U x) = normalizar_texto U x"
proof -
  let ?y = "normalizar_texto U x"
  have st: "settled U c" if "c \<in> set ?y" for c
    using normalizar_texto_settled [OF ok that] .
  have sp: "isspace U chr_space" using db_space [OF ok] by simp
  have 1: "str_lower U ?y = ?y"
  proof (rule db_lower_id [OF ok])
    fix c assume "c \<in> set ?y"
    then show "lower_fixed U c" using st by (simp add: settled_def)
  qed
  have 2: "normalize_NFD U ?y = ?y"
  proof (rule db_nfd_id [OF ok])
    fix c assume "c \<in> set ?y"
    then have "settled U c" by (rule st)
    then show "nfd_fixed U c \<and> (re_word U c \<or> c = chr_space)"
      unfolding settled_def by blast
  qed
  have 3: "filter (\<lambda>char. \<not> category_Mn U char) ?y = ?y"
  proof (rule filter_True)
    show "\<forall>c \<in> set ?y. \<not> category_Mn U c"
    proof
      fix c assume "c \<in> set ?y"
      then have "settled U c" by (rule st)
      then show "\<not> category_Mn U c" by (simp add: settled_def)
    qed
  qed
  have 4: "re_sub_nonword U ?y = ?y"
    unfolding re_sub_nonword_def
  proof (rule map_idI)
    fix c assume "c \<in> set ?y"
    then have "settled U c" by (rule st)
    then have "re_word U c \<or> isspace U c" using sp unfolding settled_def by blast
    then show "(if re_word U c \<or> isspace U c then c else chr_space) = c" by simp
  qed
  have 5: "re_sub_spaces U ?y = ?y"
    by (rule re_sub_spaces_collapsed [OF normalizar_texto_collapsed])
  have 6: "str_strip U ?y = ?y"
  proof -
    have "?y = str_strip U (re_sub_spaces U (re_sub_nonword U
        (filter (\<lambda>char. \<not> category_Mn U char) (normalize_NFD U (str_lower U x)))))"
      by (simp add: normalizar_texto_def Let_def)
    then show ?thesis by (metis str_strip_idem)
  qed
  have "normalizar_texto U ?y =
      str_strip U (re_sub_spaces U (re_sub_nonword U
        (filter (\<lambda>char. \<not> category_Mn U char) (normalize_NFD U (str_lower U ?y)))))"
    by (simp only: normalizar_texto_def Let_def)
  also have "\<dots> = ?y" by (simp only: 1 2 3 4 5 6)
  finally show ?thesis .
qed

theorem normalizar_texto_idempotent_witness:
  "unicode_db_ok ascii_db \<and>
   normalizar_texto ascii_db (cps ''  Hola,   MUNDO!! '') = cps ''hola mundo'' \<and>
   normalizar_texto ascii_db (cps ''hola mundo'') = cps ''hola mundo''"
proof -
  have a: "normalizar_texto ascii_db (cps ''  Hola,   MUNDO!! '') = cps ''hola mundo''"
    by code_simp
  have b: "normalizar_texto ascii_db (normalizar_texto ascii_db (cps ''  Hola,   MUNDO!! ''))
      = normalizar_texto ascii_db (cps ''  Hola,   MUNDO!! '')"
    by (rule normalizar_texto_idempotent [OF ascii_db_ok])
  have c: "normalizar_texto ascii_db (cps ''hola mundo'') = cps ''hola mundo''"
    using b unfolding a .
  show ?thesis by (intro conjI ascii_db_ok a c)
qed

end
